theory Spec2Isabelle
  imports Main "HOL-Library.Word" "HOL-Library.Signed_Division" "HOL-Library.Monad_Syntax"
begin

section \<open>Data model of not\_stisla.c\<close>

text \<open>
  \<^item> \<open>int64_t\<close> values are \<open>64 word\<close>; the C comparisons \<open><\<close>, \<open><=\<close>, \<open>>\<close> on them are
    signed, written \<open>sint a \<le> sint b\<close>.
  \<^item> \<open>size_t\<close> values are \<open>nat\<close> below \<open>2 ^ 64\<close>; where an addition or subtraction of the
    source can leave that range the wrap-around is written out (\<open>size_add\<close>, \<open>size_sub\<close>).
  \<^item> A function that reads memory returns an \<open>option\<close>: \<open>None\<close> is undefined behaviour of the C
    program (a read outside an allocation, a read of a cell that was never written, a
    signed overflow of \<open>__int128\<close>).
  \<^item> A pointer that the source compares with \<open>NULL\<close> is a \<open>ptr\<close>.
\<close>

type_synonym int64 = "64 word"

datatype 'a ptr = NULL | Ptr 'a

definition SIZE_MAX :: nat where
  "SIZE_MAX = 2 ^ 64 - 1"

definition NOT_STISLA_NOT_FOUND :: nat where
  "NOT_STISLA_NOT_FOUND = SIZE_MAX"

definition NOT_STISLA_MAX_ANCHORS :: nat where
  "NOT_STISLA_MAX_ANCHORS = 16"

definition NOT_STISLA_CHUNK_SIZE :: nat where
  "NOT_STISLA_CHUNK_SIZE = 4"

definition size_add :: "nat \<Rightarrow> nat \<Rightarrow> nat" where
  "size_add a b = (a + b) mod 2 ^ 64"

definition size_sub :: "nat \<Rightarrow> nat \<Rightarrow> nat" where
  "size_sub a b = nat ((int a - int b) mod 2 ^ 64)"

text \<open>The anchor struct; its fields \<open>v\<close> and \<open>i\<close> are \<open>anchor_v\<close> and \<open>anchor_i\<close> here.\<close>

record anchor =
  anchor_v :: int64
  anchor_i :: nat

text \<open>
  The anchor table struct. \<open>anchors\<close> is the allocation the pointer of that name refers to,
  with every cell of it, also those at and beyond \<open>size\<close>: \<open>None\<close> is a cell that was never
  written since \<open>malloc\<close>/\<open>realloc\<close> handed it out, the empty list is the \<open>NULL\<close> pointer.
  The field \<open>size\<close> is \<open>tsize\<close> here.
\<close>

record anchor_table =
  anchors :: "anchor option list"
  capacity :: nat
  tsize :: nat
  searches_performed :: nat
  workload_type :: int

definition arr_read :: "int64 list \<Rightarrow> nat \<Rightarrow> int64 option" where
  "arr_read arr k = (if k < length arr then Some (arr ! k) else None)"

definition anchor_read :: "anchor_table \<Rightarrow> nat \<Rightarrow> anchor option" where
  "anchor_read t k = (if k < length (anchors t) then anchors t ! k else None)"

section \<open>ChunkedScan\<close>

text \<open>\<open>for (i = start; i < n; ++i) if (arr[i] == key) return i; return NOT_FOUND;\<close>\<close>

function scan_loop :: "int64 list \<Rightarrow> nat \<Rightarrow> nat \<Rightarrow> int64 \<Rightarrow> nat option" where
  "scan_loop arr k n key =
     (if k < n then
        do { x \<leftarrow> arr_read arr k;
             if x = key then Some k else scan_loop arr (k + 1) n key }
      else Some NOT_STISLA_NOT_FOUND)"
  by pat_completeness auto
termination
  by (relation "measure (\<lambda>(arr, k, n, key). n - k)") auto

text \<open>The inner loop over \<open>cmp_results\<close>: the position of the first flag that is set.\<close>

fun first_set :: "bool list \<Rightarrow> nat \<Rightarrow> nat option" where
  "first_set [] k = None"
| "first_set (c # cs) k = (if c then Some k else first_set cs (k + 1))"

text \<open>
  The loop over the full chunks. The inner \<open>option\<close> tells whether the loop returned from
  the function (\<open>Some\<close> the index) or ran to its end (\<open>None\<close>).
\<close>

function chunk_loop :: "int64 list \<Rightarrow> nat \<Rightarrow> nat \<Rightarrow> int64 \<Rightarrow> nat option option" where
  "chunk_loop arr chunk full_chunks key =
     (if chunk < full_chunks then
        (let base = chunk * NOT_STISLA_CHUNK_SIZE in
         do { x0 \<leftarrow> arr_read arr base;
              x1 \<leftarrow> arr_read arr (base + 1);
              x2 \<leftarrow> arr_read arr (base + 2);
              x3 \<leftarrow> arr_read arr (base + 3);
              case first_set [x0 = key, x1 = key, x2 = key, x3 = key] 0 of
                Some k \<Rightarrow> Some (Some (base + k))
              | None \<Rightarrow> chunk_loop arr (chunk + 1) full_chunks key })
      else Some None)"
  by pat_completeness auto
termination
  by (relation "measure (\<lambda>(arr, chunk, full_chunks, key). full_chunks - chunk)") auto

definition not_stisla_chunked_search :: "int64 list \<Rightarrow> nat \<Rightarrow> int64 \<Rightarrow> nat option" where
  "not_stisla_chunked_search arr n key =
     (if n \<le> NOT_STISLA_CHUNK_SIZE then scan_loop arr 0 n key
      else
        (let full_chunks = n div NOT_STISLA_CHUNK_SIZE in
         do { r \<leftarrow> chunk_loop arr 0 full_chunks key;
              case r of
                Some k \<Rightarrow> Some k
              | None \<Rightarrow> scan_loop arr (full_chunks * NOT_STISLA_CHUNK_SIZE) n key }))"

text \<open>
  The naive linear scan the specification compares ChunkedScan with: the first position
  below \<open>n\<close> that holds the key, or \<open>NOT_FOUND\<close>.
\<close>

fun first_match :: "int64 list \<Rightarrow> int64 \<Rightarrow> nat \<Rightarrow> nat option" where
  "first_match [] key k = None"
| "first_match (x # xs) key k = (if x = key then Some k else first_match xs key (k + 1))"

definition linear_scan :: "int64 list \<Rightarrow> nat \<Rightarrow> int64 \<Rightarrow> nat" where
  "linear_scan arr n key =
     (case first_match (take n arr) key 0 of Some k \<Rightarrow> k | None \<Rightarrow> NOT_STISLA_NOT_FOUND)"


section \<open>AnchorLocator\<close>

text \<open>The \<open>default\<close> branch of the switch: \<open>while (lo + 1 < hi)\<close>.\<close>

function anchor_lower_loop :: "anchor_table \<Rightarrow> int64 \<Rightarrow> nat \<Rightarrow> nat \<Rightarrow> nat option" where
  "anchor_lower_loop t x lo hi =
     (if lo + 1 < hi then
        (let mid = lo + (hi - lo) div 2 in
         do { a \<leftarrow> anchor_read t mid;
              if sint (anchor_v a) \<le> sint x then anchor_lower_loop t x mid hi
              else anchor_lower_loop t x lo mid })
      else Some lo)"
  by pat_completeness auto
termination
  by (relation "measure (\<lambda>(t, x, lo, hi). hi - lo)") auto

definition not_stisla_anchor_lower :: "anchor_table \<Rightarrow> int64 \<Rightarrow> nat option" where
  "not_stisla_anchor_lower t x =
     (if tsize t = 0 then Some 0
      else
        (let lo = 0; hi = tsize t - 1 in
         if hi - lo = 0 then
           do { a0 \<leftarrow> anchor_read t lo;
                Some (if sint (anchor_v a0) \<le> sint x then lo else 0) }
         else if hi - lo = 1 then
           do { a0 \<leftarrow> anchor_read t lo;
                if sint (anchor_v a0) \<le> sint x then
                  do { a1 \<leftarrow> anchor_read t hi;
                       Some (if sint (anchor_v a1) \<le> sint x then hi else lo) }
                else Some 0 }
         else if hi - lo = 2 then
           do { a1 \<leftarrow> anchor_read t (lo + 1);
                if sint (anchor_v a1) \<le> sint x then
                  do { a2 \<leftarrow> anchor_read t hi;
                       Some (if sint (anchor_v a2) \<le> sint x then hi else lo + 1) }
                else
                  do { a0 \<leftarrow> anchor_read t lo;
                       Some (if sint (anchor_v a0) \<le> sint x then lo else 0) } }
         else anchor_lower_loop t x lo hi))"

section \<open>Interpolator\<close>

definition in_int128 :: "int \<Rightarrow> bool" where
  "in_int128 z = (- (2 ^ 127) \<le> z \<and> z < 2 ^ 127)"

text \<open>
  The \<open>__int128\<close> values are integers; a product or sum that leaves the range of
  \<open>__int128\<close> is a signed overflow, \<open>None\<close>. The division of C truncates towards zero
  (\<open>sdiv\<close>). The result is the \<open>int64_t\<close> the function returns; \<open>(size_t)result\<close> of a
  result that is not negative is \<open>result mod 2 ^ 64\<close>.
\<close>

definition not_stisla_interpolate ::
  "int64 \<Rightarrow> int64 \<Rightarrow> nat \<Rightarrow> nat \<Rightarrow> int64 \<Rightarrow> int64 option" where
  "not_stisla_interpolate l_val r_val l_idx r_idx key =
     (let span = size_sub r_idx l_idx in
      if r_val = l_val then Some (word_of_nat l_idx)
      else
        (let key_offset = sint key - sint l_val;
             range = sint r_val - sint l_val in
         if range = 0 then Some (word_of_nat l_idx)
         else if \<not> in_int128 (key_offset * int span) then None
         else
           (let frac = (key_offset * int span) sdiv range;
                result = int l_idx + frac in
            if \<not> in_int128 result then None
            else if result < 0 then Some 0
            else if nat (result mod 2 ^ 64) > r_idx then Some (word_of_nat r_idx)
            else Some (word_of_int result))))"

section \<open>BoundedLocalSearch\<close>

text \<open>
  \<open>while (lo <= hi)\<close>. The read of \<open>arr[mid]\<close> has succeeded where \<open>mid + 1\<close> is formed,
  so \<open>mid\<close> is an index of the array and \<open>mid + 1\<close> does not wrap.
\<close>

function local_search_loop :: "int64 list \<Rightarrow> nat \<Rightarrow> nat \<Rightarrow> int64 \<Rightarrow> nat option" where
  "local_search_loop arr lo hi key =
     (if lo \<le> hi then
        (let mid = lo + (hi - lo) div 2 in
         do { val \<leftarrow> arr_read arr mid;
              if sint val < sint key then local_search_loop arr (mid + 1) hi key
              else if sint val > sint key then
                (if mid = 0 then Some NOT_STISLA_NOT_FOUND
                 else local_search_loop arr lo (mid - 1) key)
              else Some mid })
      else Some NOT_STISLA_NOT_FOUND)"
  by pat_completeness auto
termination
  by (relation "measure (\<lambda>(arr, lo, hi, key). hi + 1 - lo)") auto

definition not_stisla_local_search :: "int64 list \<Rightarrow> nat \<Rightarrow> nat \<Rightarrow> int64 \<Rightarrow> nat option" where
  "not_stisla_local_search arr lo hi key =
     (if lo \<ge> hi then Some NOT_STISLA_NOT_FOUND
      else
        do { x \<leftarrow> arr_read arr lo;
             if sint x > sint key then Some NOT_STISLA_NOT_FOUND
             else
               do { y \<leftarrow> arr_read arr hi;
                    if sint y < sint key then Some NOT_STISLA_NOT_FOUND
                    else local_search_loop arr lo hi key } })"

section \<open>Learning Policy\<close>

definition NOT_STISLA_WORKLOAD_TELEMETRY :: int where "NOT_STISLA_WORKLOAD_TELEMETRY = 0"
definition NOT_STISLA_WORKLOAD_IDS :: int where "NOT_STISLA_WORKLOAD_IDS = 1"
definition NOT_STISLA_WORKLOAD_OFFSETS :: int where "NOT_STISLA_WORKLOAD_OFFSETS = 2"
definition NOT_STISLA_WORKLOAD_EVENTS :: int where "NOT_STISLA_WORKLOAD_EVENTS = 3"

text \<open>The value of \<open>max_anchors\<close> after the switch on \<open>workload_type\<close>.\<close>

definition max_anchors_for :: "int \<Rightarrow> nat" where
  "max_anchors_for w =
     (if w = NOT_STISLA_WORKLOAD_TELEMETRY then 12
      else if w = NOT_STISLA_WORKLOAD_IDS then 8
      else if w = NOT_STISLA_WORKLOAD_OFFSETS then 20
      else if w = NOT_STISLA_WORKLOAD_EVENTS then 16
      else NOT_STISLA_MAX_ANCHORS)"

text \<open>
  \<open>realloc(anchors, new_cap * sizeof(not_stisla_anchor_t))\<close> when it succeeds: the cells
  that fit are kept, new cells are not initialised. An anchor is 16 bytes.
\<close>

definition realloc_anchors :: "anchor option list \<Rightarrow> nat \<Rightarrow> anchor option list" where
  "realloc_anchors buf new_cap =
     (let cells = ((new_cap * 16) mod 2 ^ 64) div 16
      in take cells buf @ replicate (cells - length buf) None)"

text \<open>\<open>memmove(&anchors[dst], &anchors[src], cnt * sizeof(not_stisla_anchor_t))\<close>\<close>

definition memmove_anchors ::
  "anchor option list \<Rightarrow> nat \<Rightarrow> nat \<Rightarrow> nat \<Rightarrow> anchor option list option" where
  "memmove_anchors buf dst src cnt =
     (if dst + cnt \<le> length buf \<and> src + cnt \<le> length buf
      then Some (take dst buf @ take cnt (drop src buf) @ drop (dst + cnt) buf)
      else None)"

text \<open>The two stores \<open>anchors[k].v = ...; anchors[k].i = ...;\<close>\<close>

definition anchor_write :: "anchor option list \<Rightarrow> nat \<Rightarrow> anchor \<Rightarrow> anchor option list option" where
  "anchor_write buf k a = (if k < length buf then Some (buf[k := Some a]) else None)"

text \<open>\<open>while (pos < table->size && table->anchors[pos].v < value) ++pos;\<close>\<close>

function insert_pos_loop :: "anchor_table \<Rightarrow> int64 \<Rightarrow> nat \<Rightarrow> nat option" where
  "insert_pos_loop t val pos =
     (if pos < tsize t then
        do { a \<leftarrow> anchor_read t pos;
             if sint (anchor_v a) < sint val then insert_pos_loop t val (pos + 1)
             else Some pos }
      else Some pos)"
  by pat_completeness auto
termination
  by (relation "measure (\<lambda>(t, val, pos). tsize t - pos)") auto

text \<open>
  \<open>realloc_ok\<close> tells whether the \<open>realloc\<close> of this call succeeds, should it be reached.
  The result is the table the pointer refers to after the call.
\<close>

definition not_stisla_learn_anchor ::
  "bool \<Rightarrow> anchor_table ptr \<Rightarrow> int64 \<Rightarrow> nat \<Rightarrow> nat \<Rightarrow> nat \<Rightarrow> anchor_table ptr option" where
  "not_stisla_learn_anchor realloc_ok table val index pred tol =
     (case table of
        NULL \<Rightarrow> Some NULL
      | Ptr t \<Rightarrow>
          (let pred_diff = (if pred > index then pred - index else index - pred) in
           if pred_diff \<le> tol then Some (Ptr t)
           else
             (let max_anchors = max_anchors_for (workload_type t) in
              if tsize t \<ge> max_anchors then Some (Ptr t)
              else
                (case (if tsize t \<ge> capacity t then
                         (let new_cap = (if capacity t \<noteq> 0
                                         then (capacity t * 2) mod 2 ^ 64 else 8) in
                          if realloc_ok
                          then Some (t\<lparr>anchors := realloc_anchors (anchors t) new_cap,
                                       capacity := new_cap\<rparr>)
                          else None)
                       else Some t) of
                   None \<Rightarrow> Some (Ptr t)
                 | Some t1 \<Rightarrow>
                     do { pos \<leftarrow> insert_pos_loop t1 val 0;
                          buf1 \<leftarrow> (if pos < tsize t1
                                   then memmove_anchors (anchors t1) (pos + 1) pos (tsize t1 - pos)
                                   else Some (anchors t1));
                          buf2 \<leftarrow> anchor_write buf1 pos \<lparr>anchor_v = val, anchor_i = index\<rparr>;
                          Some (Ptr (t1\<lparr>anchors := buf2, tsize := tsize t1 + 1\<rparr>)) }))))"

section \<open>SearchEngine\<close>

text \<open>
  ``Initialize endpoints if needed''. \<open>malloc_ok\<close> tells whether the \<open>malloc\<close> succeeds,
  should it be reached; when it fails the function returns \<open>NOT_FOUND\<close> and has stored
  the \<open>NULL\<close> it got in \<open>anchors\<close> (\<open>NoMemory\<close>).
\<close>

datatype seeded = Seeded anchor_table | NoMemory anchor_table

definition init_endpoints :: "bool \<Rightarrow> int64 list \<Rightarrow> nat \<Rightarrow> anchor_table \<Rightarrow> seeded option" where
  "init_endpoints malloc_ok arr n t =
     (if tsize t = 0 then
        (case (if capacity t = 0 then
                 (if malloc_ok
                  then Some (t\<lparr>anchors := replicate 2 None, capacity := 2\<rparr>)
                  else None)
               else Some t) of
           None \<Rightarrow> Some (NoMemory (t\<lparr>anchors := []\<rparr>))
         | Some t1 \<Rightarrow>
             do { x0 \<leftarrow> arr_read arr 0;
                  buf1 \<leftarrow> anchor_write (anchors t1) 0 \<lparr>anchor_v = x0, anchor_i = 0\<rparr>;
                  xn \<leftarrow> arr_read arr (n - 1);
                  buf2 \<leftarrow> anchor_write buf1 1 \<lparr>anchor_v = xn, anchor_i = n - 1\<rparr>;
                  Some (Seeded (t1\<lparr>anchors := buf2, tsize := 2\<rparr>)) })
      else Some (Seeded t))"

text \<open>
  The bounds of step 3, from the predicted index, the tolerance and the indices of the two
  anchors. \<open>pred + tol\<close> is an addition of \<open>size_t\<close> and wraps.
\<close>

definition search_bounds :: "nat \<Rightarrow> nat \<Rightarrow> nat \<Rightarrow> nat \<Rightarrow> nat \<times> nat" where
  "search_bounds pred tol l_i r_i =
     (let lo = (if pred > tol then pred - tol else l_i);
          lo = (if lo > l_i then lo else l_i);
          hi = size_add pred tol;
          hi = (if hi < r_i then hi else r_i)
      in if lo > hi then (l_i, r_i) else (lo, hi))"

text \<open>
  Steps 1 and 2 and the bounds of step 3: the predicted index and the bounds \<open>lo\<close>, \<open>hi\<close>
  handed to the local search.
\<close>

definition search_window :: "anchor_table \<Rightarrow> int64 \<Rightarrow> nat \<Rightarrow> (nat \<times> nat \<times> nat) option" where
  "search_window t key tol =
     do { a_idx \<leftarrow> not_stisla_anchor_lower t key;
          l \<leftarrow> anchor_read t a_idx;
          r \<leftarrow> anchor_read t (a_idx + 1);
          p \<leftarrow> not_stisla_interpolate (anchor_v l) (anchor_v r) (anchor_i l) (anchor_i r) key;
          Some (unat p, search_bounds (unat p) tol (anchor_i l) (anchor_i r)) }"

text \<open>The table of a call that passes \<open>NULL\<close>: \<open>local_table\<close>.\<close>

definition local_table :: anchor_table where
  "local_table = \<lparr>anchors = [], capacity = 0, tsize = 0, searches_performed = 0,
                   workload_type = - 1\<rparr>"

text \<open>
  The result is the returned index and the caller's table after the call (\<open>NULL\<close> when the
  caller passed \<open>NULL\<close>: the local table is dropped).
\<close>

definition not_stisla_search ::
  "bool \<Rightarrow> bool \<Rightarrow> int64 list ptr \<Rightarrow> nat \<Rightarrow> int64 \<Rightarrow> anchor_table ptr \<Rightarrow> nat
     \<Rightarrow> (nat \<times> anchor_table ptr) option" where
  "not_stisla_search malloc_ok realloc_ok arr_p n key table tol =
     (case arr_p of
        NULL \<Rightarrow> Some (NOT_STISLA_NOT_FOUND, table)
      | Ptr arr \<Rightarrow>
          if n = 0 then Some (NOT_STISLA_NOT_FOUND, table)
          else if n < 32 then
            do { r \<leftarrow> not_stisla_chunked_search arr n key; Some (r, table) }
          else
            do { s \<leftarrow> init_endpoints malloc_ok arr n
                        (case table of NULL \<Rightarrow> local_table | Ptr t \<Rightarrow> t);
                 case s of
                   NoMemory t0 \<Rightarrow> Some (NOT_STISLA_NOT_FOUND, map_ptr (\<lambda>_. t0) table)
                 | Seeded t1 \<Rightarrow>
                     do { (pred, lo, hi) \<leftarrow> search_window t1 key tol;
                          result \<leftarrow> not_stisla_local_search arr lo hi key;
                          if result \<noteq> NOT_STISLA_NOT_FOUND \<and> table \<noteq> NULL then
                            do { x \<leftarrow> arr_read arr result;
                                 t2 \<leftarrow> not_stisla_learn_anchor realloc_ok (Ptr t1) x result
                                         pred tol;
                                 Some (result,
                                       map_ptr (\<lambda>t. t\<lparr>searches_performed :=
                                                         size_add (searches_performed t) 1\<rparr>) t2) }
                          else Some (result, map_ptr (\<lambda>_. t1) table) } })"

section \<open>Public operations on tables\<close>

definition not_stisla_anchor_table_create :: "bool \<Rightarrow> bool \<Rightarrow> anchor_table ptr" where
  "not_stisla_anchor_table_create calloc_ok malloc_ok =
     (if \<not> calloc_ok then NULL
      else if \<not> malloc_ok then NULL
      else Ptr \<lparr>anchors = replicate 8 None, capacity = 8, tsize = 0,
                searches_performed = 0, workload_type = - 1\<rparr>)"

definition not_stisla_anchor_table_size :: "anchor_table ptr \<Rightarrow> nat" where
  "not_stisla_anchor_table_size table = (case table of NULL \<Rightarrow> 0 | Ptr t \<Rightarrow> tsize t)"

definition not_stisla_anchor_table_reset :: "anchor_table ptr \<Rightarrow> anchor_table ptr" where
  "not_stisla_anchor_table_reset table =
     map_ptr (\<lambda>t. t\<lparr>tsize := 0, searches_performed := 0\<rparr>) table"

definition not_stisla_init_for_dsmil :: "anchor_table ptr \<Rightarrow> int \<Rightarrow> bool \<times> anchor_table ptr" where
  "not_stisla_init_for_dsmil table w =
     (case table of
        NULL \<Rightarrow> (False, NULL)
      | Ptr t \<Rightarrow> (True, not_stisla_anchor_table_reset (Ptr (t\<lparr>workload_type := w\<rparr>))))"

text \<open>
  The loop of the batch search; \<open>al k\<close> tells whether the allocations of the \<open>k\<close>-th search
  succeed. \<open>results\<close> is the caller's output array.
\<close>

function batch_loop ::
  "(nat \<Rightarrow> bool \<times> bool) \<Rightarrow> int64 list ptr \<Rightarrow> nat \<Rightarrow> int64 list \<Rightarrow> nat \<Rightarrow> nat \<Rightarrow> nat list
     \<Rightarrow> anchor_table ptr \<Rightarrow> nat \<Rightarrow> nat \<Rightarrow> (nat \<times> nat list \<times> anchor_table ptr) option" where
  "batch_loop al arr_p n keys num_keys k results table tol found =
     (if k < num_keys then
        do { key \<leftarrow> arr_read keys k;
             (r, table') \<leftarrow> not_stisla_search (fst (al k)) (snd (al k)) arr_p n key table tol;
             results' \<leftarrow> (if k < length results then Some (results[k := r]) else None);
             batch_loop al arr_p n keys num_keys (k + 1) results' table' tol
               (if r \<noteq> NOT_STISLA_NOT_FOUND then found + 1 else found) }
      else Some (found, results, table))"
  by pat_completeness auto
termination
  by (relation "measure (\<lambda>(al, arr_p, n, keys, num_keys, k, rest). num_keys - k)") auto

definition not_stisla_batch_search ::
  "(nat \<Rightarrow> bool \<times> bool) \<Rightarrow> int64 list ptr \<Rightarrow> nat \<Rightarrow> int64 list ptr \<Rightarrow> nat \<Rightarrow> nat list ptr
     \<Rightarrow> anchor_table ptr \<Rightarrow> nat \<Rightarrow> (nat \<times> nat list ptr \<times> anchor_table ptr) option" where
  "not_stisla_batch_search al arr_p n keys_p num_keys results_p table tol =
     (case (arr_p, keys_p, results_p) of
        (Ptr arr, Ptr keys, Ptr results) \<Rightarrow>
          if num_keys = 0 then Some (0, results_p, table)
          else
            do { (found, results', table') \<leftarrow>
                   batch_loop al arr_p n keys num_keys 0 results table tol 0;
                 Some (found, Ptr results', table') }
      | _ \<Rightarrow> Some (0, results_p, table))"

section \<open>Sequences of public operations\<close>

text \<open>
  What an owner can do with the table it created: reset it, configure it for a workload,
  search and batch-search with it. A run stops (\<open>None\<close>) where the C program has undefined
  behaviour.
\<close>

datatype op =
    Reset
  | InitForDsmil int
  | Search bool bool "int64 list ptr" nat int64 nat
  | BatchSearch "nat \<Rightarrow> bool \<times> bool" "int64 list ptr" nat "int64 list ptr" nat "nat list ptr" nat

fun apply_op :: "anchor_table ptr \<Rightarrow> op \<Rightarrow> anchor_table ptr option" where
  "apply_op table Reset = Some (not_stisla_anchor_table_reset table)"
| "apply_op table (InitForDsmil w) = Some (snd (not_stisla_init_for_dsmil table w))"
| "apply_op table (Search malloc_ok realloc_ok arr_p n key tol) =
     map_option snd (not_stisla_search malloc_ok realloc_ok arr_p n key table tol)"
| "apply_op table (BatchSearch al arr_p n keys_p num_keys results_p tol) =
     map_option (\<lambda>(found, results, table'). table')
       (not_stisla_batch_search al arr_p n keys_p num_keys results_p table tol)"

fun run_ops :: "anchor_table ptr \<Rightarrow> op list \<Rightarrow> anchor_table ptr option" where
  "run_ops table [] = Some table"
| "run_ops table (x # xs) =
     (case apply_op table x of None \<Rightarrow> None | Some table' \<Rightarrow> run_ops table' xs)"

text \<open>An array of \<open>n\<close> elements that is sorted ascending, as signed values.\<close>

definition sorted_array :: "int64 list \<Rightarrow> nat \<Rightarrow> bool" where
  "sorted_array arr n = (n \<le> length arr \<and> sorted (map sint (take n arr)))"

section \<open>Invariants of the data model\<close>

text \<open>
  The first \<open>size\<close> cells of the allocation are the anchors of the table; they are live
  when they lie inside the allocation and have been written.
\<close>

definition anchors_live :: "anchor_table \<Rightarrow> bool" where
  "anchors_live t =
     (tsize t \<le> length (anchors t) \<and> list_all (\<lambda>c. c \<noteq> None) (take (tsize t) (anchors t)))"

text \<open>The values of the anchors, in the order of the table, as signed integers.\<close>

definition anchor_values :: "anchor_table \<Rightarrow> int list" where
  "anchor_values t = map (\<lambda>c. sint (anchor_v (the c))) (take (tsize t) (anchors t))"

text \<open>Every anchor written anywhere in the allocation of the table has an index below \<open>n\<close>.\<close>

definition anchor_indices_below :: "anchor_table ptr \<Rightarrow> nat \<Rightarrow> bool" where
  "anchor_indices_below table n =
     (case table of
        NULL \<Rightarrow> True
      | Ptr t \<Rightarrow> list_all (\<lambda>c. case c of None \<Rightarrow> True | Some a \<Rightarrow> anchor_i a < n) (anchors t))"

text \<open>The anchor count is at most the maximum of the table's workload type.\<close>

definition within_cap :: "anchor_table ptr \<Rightarrow> bool" where
  "within_cap table =
     (case table of NULL \<Rightarrow> True | Ptr t \<Rightarrow> tsize t \<le> max_anchors_for (workload_type t))"

text \<open>The searches of an operation are on arrays that are sorted ascending.\<close>

fun op_sorted :: "op \<Rightarrow> bool" where
  "op_sorted (Search malloc_ok realloc_ok (Ptr arr) n key tol) = sorted_array arr n"
| "op_sorted (BatchSearch al (Ptr arr) n keys_p num_keys results_p tol) = sorted_array arr n"
| "op_sorted _ = True"

text \<open>The anchors of the table are live and sorted ascending by value.\<close>

definition sorted_table :: "anchor_table ptr \<Rightarrow> bool" where
  "sorted_table table =
     (case table of NULL \<Rightarrow> True | Ptr t \<Rightarrow> anchors_live t \<and> sorted (anchor_values t))"

text \<open>
  The state of a table that has only been created, reset, configured and seeded: an
  allocation of eight cells, no anchor or the two endpoint anchors, the first with index
  \<open>0\<close> and the second with an index below \<open>2 ^ 63\<close>, and no other cell written.
\<close>

definition seeded_only :: "anchor_table ptr \<Rightarrow> bool" where
  "seeded_only table =
     (case table of
        NULL \<Rightarrow> True
      | Ptr t \<Rightarrow>
          length (anchors t) = 8 \<and> capacity t = 8 \<and> (tsize t = 0 \<or> tsize t = 2) \<and>
          list_all (\<lambda>c. c = None) (drop 2 (anchors t)) \<and>
          (tsize t = 2 \<longrightarrow>
             (case (anchors t ! 0, anchors t ! 1) of
                (Some a0, Some a1) \<Rightarrow> anchor_i a0 = 0 \<and> anchor_i a1 < 2 ^ 63
              | _ \<Rightarrow> False)))"


section \<open>Concrete inputs of the examples\<close>

definition four_anchors :: anchor_table where
  "four_anchors = \<lparr>anchors = [Some \<lparr>anchor_v = 0, anchor_i = 0\<rparr>, Some \<lparr>anchor_v = 10, anchor_i = 1\<rparr>,
       Some \<lparr>anchor_v = 20, anchor_i = 2\<rparr>, Some \<lparr>anchor_v = 30, anchor_i = 3\<rparr>,
       None, None, None, None],
     capacity = 8, tsize = 4, searches_performed = 0, workload_type = - 1\<rparr>"

definition linear_array :: "int64 list" where
  "linear_array = [0, 1, 2, 3, 4, 5, 6, 7, 8, 9, 10, 11, 12, 13, 14, 15, 16, 17, 18, 19, 20,
                   21, 22, 23, 24, 25, 26, 27, 28, 29, 30, 31]"

definition skewed_array :: "int64 list" where
  "skewed_array = [0, 1, 2, 3, 4, 5, 6, 7, 8, 9, 10, 11, 12, 13, 14, 15, 16, 17, 18, 19, 20,
                   21, 22, 23, 24, 25, 26, 27, 28, 29, 30, 1000]"

definition forty_array :: "int64 list" where
  "forty_array = [0, 1, 2, 3, 4, 5, 6, 7, 8, 9, 10, 11, 12, 13, 14, 15, 16, 17, 18, 19, 20,
                  21, 22, 23, 24, 25, 26, 27, 28, 29, 30, 31, 32, 33, 34, 35, 36, 37, 38, 39]"

definition constant_array :: "int64 list" where
  "constant_array = [7, 7, 7, 7, 7, 7, 7, 7, 7, 7, 7, 7, 7, 7, 7, 7, 7, 7, 7, 7, 7, 7, 7, 7, 7,
                     7, 7, 7, 7, 7, 7, 7]"

definition eight_anchors :: "anchor option list" where
  "eight_anchors = [Some \<lparr>anchor_v = 100, anchor_i = 10\<rparr>, Some \<lparr>anchor_v = 200, anchor_i = 39\<rparr>,
                    Some \<lparr>anchor_v = 300, anchor_i = 39\<rparr>, Some \<lparr>anchor_v = 400, anchor_i = 39\<rparr>,
                    Some \<lparr>anchor_v = 500, anchor_i = 39\<rparr>, Some \<lparr>anchor_v = 600, anchor_i = 39\<rparr>,
                    Some \<lparr>anchor_v = 700, anchor_i = 39\<rparr>, Some \<lparr>anchor_v = 800, anchor_i = 39\<rparr>]"

declare scan_loop.simps [simp del] chunk_loop.simps [simp del] anchor_lower_loop.simps [simp del]
  local_search_loop.simps [simp del] insert_pos_loop.simps [simp del] batch_loop.simps [simp del]

section \<open>ChunkedScan is a linear scan\<close>

lemma first_match_append:
  "first_match (xs @ ys) key k =
     (case first_match xs key k of Some j \<Rightarrow> Some j | None \<Rightarrow> first_match ys key (k + length xs))"
  by (induction xs arbitrary: k) (auto split: option.splits)

lemma first_match_None: "first_match xs key k = None \<longleftrightarrow> key \<notin> set xs"
  by (induction xs arbitrary: k) auto

lemma first_match_Some:
  "first_match xs key k = Some j \<Longrightarrow>
     \<exists>m. j = k + m \<and> m < length xs \<and> xs ! m = key \<and> (\<forall>m' < m. xs ! m' \<noteq> key)"
proof (induction xs arbitrary: k)
  case Nil
  then show ?case by simp
next
  case (Cons x xs)
  show ?case
  proof (cases "x = key")
    case True
    with Cons.prems show ?thesis by auto
  next
    case False
    with Cons.prems have fm: "first_match xs key (k + 1) = Some j" by simp
    from Cons.IH [OF fm] obtain m where m: "j = k + 1 + m" "m < length xs"
      "xs ! m = key" "\<forall>m' < m. xs ! m' \<noteq> key" by auto
    have "\<forall>m' < Suc m. (x # xs) ! m' \<noteq> key"
    proof (intro allI impI)
      fix m' assume "m' < Suc m"
      then show "(x # xs) ! m' \<noteq> key" using False m by (cases m') auto
    qed
    with m show ?thesis by (intro exI [of _ "Suc m"]) simp
  qed
qed

lemma scan_loop_first_match:
  "k \<le> n \<Longrightarrow> n \<le> length arr \<Longrightarrow>
   scan_loop arr k n key =
     Some (case first_match (drop k (take n arr)) key k of
             Some j \<Rightarrow> j | None \<Rightarrow> NOT_STISLA_NOT_FOUND)"
proof (induction arr k n key rule: scan_loop.induct)
  case (1 arr k n key)
  show ?case
  proof (cases "k < n")
    case False
    with "1.prems" show ?thesis by (subst scan_loop.simps) simp
  next
    case True
    with "1.prems" have rd: "arr_read arr k = Some (arr ! k)" by (simp add: arr_read_def)
    from True "1.prems" have dr: "drop k (take n arr) = arr ! k # drop (k + 1) (take n arr)"
      by (simp add: Cons_nth_drop_Suc [symmetric])
    show ?thesis
    proof (cases "arr ! k = key")
      case True
      with \<open>k < n\<close> rd dr show ?thesis by (subst scan_loop.simps) simp
    next
      case False
      with "1.IH" [OF \<open>k < n\<close> rd False] True "1.prems"
      have "scan_loop arr (k + 1) n key =
          Some (case first_match (drop (k + 1) (take n arr)) key (k + 1) of
             Some j \<Rightarrow> j | None \<Rightarrow> NOT_STISLA_NOT_FOUND)" by simp
      with False \<open>k < n\<close> rd dr show ?thesis by (subst scan_loop.simps) simp
    qed
  qed
qed

lemma chunk_loop_first_match:
  "chunk \<le> fc \<Longrightarrow> fc * 4 \<le> length arr \<Longrightarrow>
   chunk_loop arr chunk fc key =
     Some (first_match (drop (chunk * 4) (take (fc * 4) arr)) key (chunk * 4))"
proof (induction arr chunk fc key rule: chunk_loop.induct)
  case (1 arr chunk fc key)
  show ?case
  proof (cases "chunk < fc")
    case False
    with "1.prems" show ?thesis by (subst chunk_loop.simps) simp
  next
    case True
    define base where "base = chunk * NOT_STISLA_CHUNK_SIZE"
    have base4: "base = chunk * 4" by (simp add: base_def NOT_STISLA_CHUNK_SIZE_def)
    from True "1.prems" have b: "base + 3 < fc * 4" "fc * 4 \<le> length arr"
      by (auto simp: base4)
    then have rd: "arr_read arr base = Some (arr ! base)"
      "arr_read arr (base + 1) = Some (arr ! (base + 1))"
      "arr_read arr (base + 2) = Some (arr ! (base + 2))"
      "arr_read arr (base + 3) = Some (arr ! (base + 3))"
      by (auto simp: arr_read_def)
    have dr: "drop base (take (fc * 4) arr) =
       arr ! base # arr ! (base + 1) # arr ! (base + 2) # arr ! (base + 3) #
       drop (base + 4) (take (fc * 4) arr)"
    proof -
      have e: "base + 1 = Suc base" "base + 2 = Suc (Suc base)"
        "base + 3 = Suc (Suc (Suc base))" "base + 4 = Suc (Suc (Suc (Suc base)))" by simp_all
      show ?thesis unfolding e using b by (simp add: Cons_nth_drop_Suc [symmetric])
    qed
    have unfold: "chunk_loop arr chunk fc key =
        (case first_set [arr ! base = key, arr ! (base + 1) = key,
                         arr ! (base + 2) = key, arr ! (base + 3) = key] 0 of
           Some k \<Rightarrow> Some (Some (base + k))
         | None \<Rightarrow> chunk_loop arr (chunk + 1) fc key)"
      using True rd by (subst chunk_loop.simps) (simp add: base_def [symmetric])
    show ?thesis
    proof (cases "first_set [arr ! base = key, arr ! (base + 1) = key,
                             arr ! (base + 2) = key, arr ! (base + 3) = key] 0")
      case (Some j)
      then show ?thesis
        unfolding unfold base4 [symmetric] dr by (auto split: if_splits)
    next
      case None
      then have ne: "arr ! base \<noteq> key" "arr ! (base + 1) \<noteq> key"
        "arr ! (base + 2) \<noteq> key" "arr ! (base + 3) \<noteq> key"
        by (auto split: if_splits)
      have nx: "(chunk + 1) * 4 = base + 4" by (simp add: base4)
      have "chunk_loop arr (chunk + 1) fc key =
        Some (first_match (drop ((chunk + 1) * 4) (take (fc * 4) arr)) key ((chunk + 1) * 4))"
        using True "1.prems" None
        by (intro "1.IH" [OF True base_def rd]) auto
      then show ?thesis
        unfolding unfold None nx base4 [symmetric] dr using ne by (simp add: numeral_eq_Suc)
    qed
  qed
qed

lemma chunked_search_linear_scan:
  assumes "n \<le> length arr"
  shows "not_stisla_chunked_search arr n key = Some (linear_scan arr n key)"
proof (cases "n \<le> NOT_STISLA_CHUNK_SIZE")
  case True
  then show ?thesis
    using scan_loop_first_match [of 0 n arr key] assms
    by (simp add: not_stisla_chunked_search_def linear_scan_def)
next
  case False
  define fc where "fc = n div 4"
  have fc: "fc * 4 \<le> n" by (simp add: fc_def)
  have "take (fc * 4) (take n arr) = take (fc * 4) arr" using fc by (simp add: min_def)
  then have tk: "take n arr = take (fc * 4) arr @ drop (fc * 4) (take n arr)"
    using append_take_drop_id [of "fc * 4" "take n arr"] by simp
  have len: "min (length arr) (fc * 4) = fc * 4" using fc assms by simp
  have c: "chunk_loop arr 0 fc key = Some (first_match (take (fc * 4) arr) key 0)"
    using chunk_loop_first_match [of 0 fc arr key] fc assms by simp
  have s: "scan_loop arr (fc * 4) n key =
     Some (case first_match (drop (fc * 4) (take n arr)) key (fc * 4) of
             Some j \<Rightarrow> j | None \<Rightarrow> NOT_STISLA_NOT_FOUND)"
    using scan_loop_first_match [of "fc * 4" n arr key] fc assms by simp
  have "first_match (take n arr) key 0 =
     (case first_match (take (fc * 4) arr) key 0 of Some j \<Rightarrow> Some j
      | None \<Rightarrow> first_match (drop (fc * 4) (take n arr)) key (fc * 4))"
    by (subst tk, subst first_match_append) (simp add: len split: option.splits)
  then show ?thesis
    using False c s
    by (simp add: not_stisla_chunked_search_def linear_scan_def NOT_STISLA_CHUNK_SIZE_def
        fc_def [symmetric] split: option.splits)
qed

lemma linear_scan_first:
  assumes "k < n" "n \<le> length arr" "arr ! k = key" "\<forall>m < k. arr ! m \<noteq> key"
  shows "linear_scan arr n key = k"
proof (cases "first_match (take n arr) key 0")
  case None
  then have "key \<notin> set (take n arr)" by (simp add: first_match_None)
  moreover have "take n arr ! k = key" "k < length (take n arr)" using assms by simp_all
  ultimately show ?thesis by (metis nth_mem)
next
  case (Some j)
  from first_match_Some [OF Some] have j: "j < n" "arr ! j = key" "\<forall>m < j. arr ! m \<noteq> key"
    using assms by auto
  have "\<not> j < k" using assms(4) j(2) by auto
  moreover have "\<not> k < j" using assms(3) j(3) by auto
  ultimately have "j = k" by simp
  with Some show ?thesis by (simp add: linear_scan_def)
qed

lemma linear_scan_absent:
  assumes "\<forall>k < n. arr ! k \<noteq> key" "n \<le> length arr"
  shows "linear_scan arr n key = NOT_STISLA_NOT_FOUND"
proof (cases "first_match (take n arr) key 0")
  case None
  then show ?thesis by (simp add: linear_scan_def)
next
  case (Some j)
  from first_match_Some [OF Some] assms show ?thesis by auto
qed

text \<open>
  C8. For an array of \<open>n\<close> elements, ChunkedScan returns what the naive linear scan returns:
  the smallest index below \<open>n\<close> that holds the key when there is one, \<open>NOT_FOUND\<close> otherwise.
  Processing in groups of four never changes the index.
\<close>

theorem chunked_search_is_linear_scan:
  assumes "n \<le> length arr"
  shows "not_stisla_chunked_search arr n key = Some (linear_scan arr n key) \<and>
         (\<forall>k < n. arr ! k = key \<and> (\<forall>m < k. arr ! m \<noteq> key) \<longrightarrow> linear_scan arr n key = k) \<and>
         ((\<forall>k < n. arr ! k \<noteq> key) \<longrightarrow> linear_scan arr n key = NOT_STISLA_NOT_FOUND)"
  using assms chunked_search_linear_scan linear_scan_first linear_scan_absent by blast

theorem chunked_search_is_linear_scan_witness:
  "(7::nat) \<le> length [5, 6, 7, 8, 9, 1, 1 :: int64] \<and>
   not_stisla_chunked_search [5, 6, 7, 8, 9, 1, 1] 7 1 = Some 5 \<and>
   not_stisla_chunked_search [5, 6, 7, 8, 9, 1, 1] 7 4 = Some NOT_STISLA_NOT_FOUND"
  using chunked_search_is_linear_scan [of 7 "[5, 6, 7, 8, 9, 1, 1]" 1]
    chunked_search_is_linear_scan [of 7 "[5, 6, 7, 8, 9, 1, 1]" 4]
  by (simp add: linear_scan_def)

section \<open>The interpolator\<close>

lemma sint64_bounds: "- (2 ^ 63) \<le> sint (x :: int64)" "sint (x :: int64) < 2 ^ 63"
  using sint_ge [of x] sint_lt [of x] by simp_all

lemma sdiv_abs_le: "\<bar>(a :: int) sdiv b\<bar> \<le> \<bar>a\<bar>"
proof -
  have nn: "0 \<le> \<bar>a\<bar> div \<bar>b\<bar>" by (simp add: pos_imp_zdiv_nonneg_iff div_int_pos_iff)
  have le: "\<bar>a\<bar> div \<bar>b\<bar> \<le> \<bar>a\<bar>"
  proof (cases "b = 0")
    case True
    then show ?thesis by simp
  next
    case False
    then have "1 \<le> \<bar>b\<bar>" by simp
    then have "\<bar>a\<bar> div \<bar>b\<bar> \<le> \<bar>a\<bar> div 1"
      by (intro zdiv_mono2) simp_all
    then show ?thesis by simp
  qed
  have "\<bar>a sdiv b\<bar> = \<bar>sgn a\<bar> * \<bar>sgn b\<bar> * (\<bar>a\<bar> div \<bar>b\<bar>)"
    using nn by (simp add: signed_divide_int_def abs_mult)
  also have "\<dots> \<le> \<bar>a\<bar> div \<bar>b\<bar>"
    using nn by (cases "a = 0"; cases "b = 0") (simp_all add: abs_sgn_eq)
  finally show ?thesis using le by simp
qed

lemma sdiv_nonneg: "0 \<le> (a :: int) \<Longrightarrow> 0 < b \<Longrightarrow> a sdiv b = a div b"
  by (cases "a = 0") (simp_all add: signed_divide_int_def)

lemma unat_of_nat64: "k < 2 ^ 64 \<Longrightarrow> unat (word_of_nat k :: int64) = k"
  by (simp add: unat_of_nat)

lemma unat_of_int64: "0 \<le> z \<Longrightarrow> unat (word_of_int z :: int64) = nat (z mod 2 ^ 64)"
  by (simp add: unat_eq_nat_uint uint_word_of_int take_bit_eq_mod)


lemma sint_eq_iff64: "sint (a :: int64) = sint b \<longleftrightarrow> a = b"
  by (auto intro: signed_word_eqI)

lemma size_sub_le: "b \<le> a \<Longrightarrow> a < 2 ^ 64 \<Longrightarrow> size_sub a b = a - b"
  by (simp add: size_sub_def nat_diff_distrib' flip: of_nat_diff)

lemma interpolate_unfold:
  assumes "r_val \<noteq> l_val" "l_idx \<le> r_idx" "r_idx < 2 ^ 63"
    and res_def: "res = int l_idx + ((sint key - sint l_val) * int (r_idx - l_idx)) sdiv
                                  (sint r_val - sint l_val)"
  shows "not_stisla_interpolate l_val r_val l_idx r_idx key =
           (if res < 0 then Some 0
            else if nat (res mod 2 ^ 64) > r_idx then Some (word_of_nat r_idx)
            else Some (word_of_int res))"
proof -
  define ko where "ko = sint key - sint l_val"
  define rg where "rg = sint r_val - sint l_val"
  define sp where "sp = int (r_idx - l_idx)"
  have r64: "r_idx < 2 ^ 64" using assms(3) by (simp add: order_less_trans)
  have span: "size_sub r_idx l_idx = r_idx - l_idx"
    using assms(2) r64 by (rule size_sub_le)
  have rg: "rg \<noteq> 0" using assms(1) by (simp add: rg_def sint_eq_iff64)
  have ko: "\<bar>ko\<bar> \<le> 2 ^ 64 - 1"
    using sint64_bounds [of key] sint64_bounds [of l_val] by (simp add: ko_def)
  have sp: "0 \<le> sp" "sp \<le> 2 ^ 63 - 1" using assms(2,3) by (simp_all add: sp_def)
  have "\<bar>ko * sp\<bar> = \<bar>ko\<bar> * sp" using sp by (simp add: abs_mult)
  also have "\<dots> \<le> (2 ^ 64 - 1) * (2 ^ 63 - 1)" using ko sp by (intro mult_mono) simp_all
  finally have pr: "\<bar>ko * sp\<bar> \<le> (2 ^ 64 - 1) * (2 ^ 63 - 1)" .
  then have in1: "in_int128 (ko * sp)" by (simp add: in_int128_def abs_le_iff)
  have "\<bar>(ko * sp) sdiv rg\<bar> \<le> (2 ^ 64 - 1) * (2 ^ 63 - 1)"
    using sdiv_abs_le [of "ko * sp" rg] pr by linarith
  moreover have "0 \<le> int l_idx" "int l_idx < 2 ^ 64" using assms(2) r64 by simp_all
  ultimately have in2: "in_int128 (int l_idx + (ko * sp) sdiv rg)"
    by (simp add: in_int128_def abs_le_iff)
  show ?thesis
    using assms(1) rg in1 in2
    by (simp add: not_stisla_interpolate_def span res_def Let_def
        flip: ko_def rg_def sp_def)
qed

lemma interpolate_bounds_aux:
  assumes "l_idx \<le> r_idx" "r_idx < 2 ^ 63"
  shows "\<exists>p. not_stisla_interpolate l_val r_val l_idx r_idx key = Some p \<and>
             unat p \<le> r_idx \<and>
             (sint l_val \<le> sint key \<and> sint key \<le> sint r_val \<longrightarrow> l_idx \<le> unat p)"
proof (cases "r_val = l_val")
  case True
  have "l_idx < 2 ^ 64" using assms by (simp add: order_less_trans [of _ "2 ^ 63"] order_le_less_trans)
  then show ?thesis using True assms(1)
    by (simp add: not_stisla_interpolate_def Let_def unat_of_nat64)
next
  case False
  define ko where "ko = sint key - sint l_val"
  define rg where "rg = sint r_val - sint l_val"
  define sp where "sp = int (r_idx - l_idx)"
  define res where "res = int l_idx + (ko * sp) sdiv rg"
  have r64: "r_idx < 2 ^ 64" using assms(2) by (simp add: order_less_trans)
  have unf: "not_stisla_interpolate l_val r_val l_idx r_idx key =
           (if res < 0 then Some 0
            else if nat (res mod 2 ^ 64) > r_idx then Some (word_of_nat r_idx)
            else Some (word_of_int res))"
    by (rule interpolate_unfold [OF False assms]) (simp add: res_def ko_def rg_def sp_def)
  have inside: "int l_idx \<le> res \<and> res \<le> int r_idx"
    if "sint l_val \<le> sint key" "sint key \<le> sint r_val"
  proof -
    have "sint r_val \<noteq> sint l_val" using False by (simp add: sint_eq_iff64)
    with that have rg: "0 < rg" and ko: "0 \<le> ko" "ko \<le> rg" by (simp_all add: rg_def ko_def)
    have sp: "0 \<le> sp" by (simp add: sp_def)
    have fr: "(ko * sp) sdiv rg = (ko * sp) div rg" using ko sp rg by (simp add: sdiv_nonneg)
    have "0 \<le> (ko * sp) div rg" using ko sp rg by (simp add: pos_imp_zdiv_nonneg_iff)
    moreover have "(ko * sp) div rg \<le> (rg * sp) div rg"
      using ko sp rg by (intro zdiv_mono1 mult_right_mono) simp_all
    then have "(ko * sp) div rg \<le> sp" using rg by simp
    moreover have "sp = int r_idx - int l_idx" using assms(1) by (simp add: sp_def)
    ultimately show ?thesis unfolding res_def fr by linarith
  qed
  show ?thesis
  proof (cases "res < 0")
    case True
    with unf inside show ?thesis by auto
  next
    case nonneg: False
    show ?thesis
    proof (cases "nat (res mod 2 ^ 64) > r_idx")
      case True
      with unf nonneg assms(1) r64 show ?thesis by (simp add: unat_of_nat64)
    next
      case le: False
      have u: "unat (word_of_int res :: int64) = nat (res mod 2 ^ 64)"
        using nonneg by (simp add: unat_of_int64)
      have "l_idx \<le> nat (res mod 2 ^ 64)"
        if "sint l_val \<le> sint key" "sint key \<le> sint r_val"
      proof -
        from inside [OF that] r64 have "res mod 2 ^ 64 = res" by simp
        with inside [OF that] show ?thesis by linarith
      qed
      with unf nonneg le u show ?thesis by simp
    qed
  qed
qed

text \<open>
  C2 (amended). For anchors with \<open>l_idx \<le> r_idx\<close> and \<open>r_idx\<close> below \<open>2 ^ 63\<close> the
  interpolator returns an index, and the index is at most \<open>r_idx\<close>; it is at least
  \<open>l_idx\<close> whenever the key lies between the two anchor values.
\<close>

theorem interpolate_bounds:
  assumes "l_idx \<le> r_idx" "r_idx < 2 ^ 63"
  shows "\<exists>p. not_stisla_interpolate l_val r_val l_idx r_idx key = Some p \<and>
             unat p \<le> r_idx \<and>
             (sint l_val \<le> sint key \<and> sint key \<le> sint r_val \<longrightarrow> l_idx \<le> unat p)"
  using assms by (rule interpolate_bounds_aux)

theorem interpolate_bounds_witness:
  "(5::nat) \<le> 15 \<and> (15::nat) < 2 ^ 63 \<and> sint (10 :: int64) \<le> sint (12 :: int64) \<and>
   sint (12 :: int64) \<le> sint (20 :: int64) \<and>
   not_stisla_interpolate 10 20 5 15 12 = Some 7 \<and> unat (7 :: int64) \<le> 15 \<and>
   5 \<le> unat (7 :: int64)"
  using interpolate_bounds [of 5 15 10 12 20]
  by (simp add: not_stisla_interpolate_def size_sub_def in_int128_def signed_divide_int_def)

text \<open>
  C2 as stated fails for a key below \<open>l_val\<close>: the lower clamp is \<open>0\<close>, not \<open>l_idx\<close>.
\<close>

theorem interpolate_below_l_index:
  "(5::nat) \<le> 15 \<and> not_stisla_interpolate 10 20 5 15 5 = Some 0 \<and>
   \<not> 5 \<le> unat (0 :: int64)"
  by (simp add: not_stisla_interpolate_def size_sub_def in_int128_def signed_divide_int_def)

text \<open>
  For a key far above \<open>r_val\<close> the conversion \<open>(size_t)result\<close> drops the high bits before
  the comparison with \<open>r_idx\<close>, and the result can be below \<open>l_idx\<close> as well.
\<close>

lemma interpolate_wraps:
  "(5::nat) \<le> 8 \<and> not_stisla_interpolate 0 1 5 8 6148914691236517205 = Some 4"
  by (simp add: not_stisla_interpolate_def size_sub_def in_int128_def signed_divide_int_def)

section \<open>The anchor locator\<close>

lemma anchor_read_live:
  assumes "anchors_live t" "k < tsize t"
  shows "\<exists>a. anchor_read t k = Some a \<and> sint (anchor_v a) = anchor_values t ! k"
proof -
  from assms have k: "k < length (anchors t)" by (simp add: anchors_live_def)
  from assms have "take (tsize t) (anchors t) ! k \<noteq> None"
    by (simp add: anchors_live_def list_all_length)
  with assms(2) obtain a where a: "anchors t ! k = Some a" by auto
  with k assms(2) show ?thesis by (simp add: anchor_read_def anchor_values_def)
qed

lemma anchor_lower_loop_spec:
  assumes "anchors_live t" "lo < hi" "hi < tsize t"
  shows "\<exists>p. anchor_lower_loop t x lo hi = Some p \<and> lo \<le> p \<and> p < hi \<and>
             (anchor_values t ! lo \<le> sint x \<longrightarrow> anchor_values t ! p \<le> sint x) \<and>
             (sint x < anchor_values t ! hi \<longrightarrow> sint x < anchor_values t ! (p + 1)) \<and>
             ((\<forall>k. lo < k \<and> k < hi \<longrightarrow> sint x < anchor_values t ! k) \<longrightarrow> p = lo)"
  using assms
proof (induction t x lo hi rule: anchor_lower_loop.induct)
  case (1 t x lo hi)
  show ?case
  proof (cases "lo + 1 < hi")
    case False
    with "1.prems" have "hi = lo + 1" by simp
    with False show ?thesis by (subst anchor_lower_loop.simps) simp
  next
    case True
    define mid where "mid = lo + (hi - lo) div 2"
    from True have m: "lo < mid" "mid < hi" by (simp_all add: mid_def)
    with "1.prems" obtain a where a: "anchor_read t mid = Some a"
      "sint (anchor_v a) = anchor_values t ! mid"
      using anchor_read_live [of t mid] by auto
    show ?thesis
    proof (cases "sint (anchor_v a) \<le> sint x")
      case le: True
      from "1.IH"(1) [OF True mid_def a(1) le "1.prems"(1) m(2) "1.prems"(3)]
      obtain p where p: "anchor_lower_loop t x mid hi = Some p" "mid \<le> p" "p < hi"
        "anchor_values t ! mid \<le> sint x \<longrightarrow> anchor_values t ! p \<le> sint x"
        "sint x < anchor_values t ! hi \<longrightarrow> sint x < anchor_values t ! (p + 1)" by blast
      have "anchor_lower_loop t x lo hi = Some p"
        using True a(1) le p(1) by (subst anchor_lower_loop.simps) (simp add: mid_def [symmetric])
      moreover have "\<not> (\<forall>k. lo < k \<and> k < hi \<longrightarrow> sint x < anchor_values t ! k)"
        using m le a(2) by auto
      ultimately show ?thesis using p m le a(2) by auto
    next
      case gt: False
      from m "1.prems" have "mid < tsize t" by simp
      from "1.IH"(2) [OF True mid_def a(1) gt "1.prems"(1) m(1) this]
      obtain p where p: "anchor_lower_loop t x lo mid = Some p" "lo \<le> p" "p < mid"
        "anchor_values t ! lo \<le> sint x \<longrightarrow> anchor_values t ! p \<le> sint x"
        "sint x < anchor_values t ! mid \<longrightarrow> sint x < anchor_values t ! (p + 1)"
        "(\<forall>k. lo < k \<and> k < mid \<longrightarrow> sint x < anchor_values t ! k) \<longrightarrow> p = lo" by blast
      have "anchor_lower_loop t x lo hi = Some p"
        using True a(1) gt p(1) by (subst anchor_lower_loop.simps) (simp add: mid_def [symmetric])
      moreover have "(\<forall>k. lo < k \<and> k < hi \<longrightarrow> sint x < anchor_values t ! k) \<longrightarrow> p = lo"
        using p(6) m by auto
      ultimately show ?thesis using p m gt a(2) by auto
    qed
  qed
qed


lemma length_anchor_values: "anchors_live t \<Longrightarrow> length (anchor_values t) = tsize t"
  by (simp add: anchors_live_def anchor_values_def)

text \<open>
  C3 (amended). For a table whose anchors are live and sorted ascending by value, with at
  least one anchor, the locator returns a position \<open>p\<close> of the table. For a key below the
  first anchor value it is \<open>0\<close>. Otherwise the anchor at \<open>p\<close> has a value at most the key, and
  when the key is below the last anchor value the anchor at \<open>p + 1\<close> has a value above the key;
  with one to three anchors a key at or above the last anchor value gives the last position.
\<close>

theorem anchor_lower_position:
  assumes "anchors_live t" "1 \<le> tsize t" "sorted (anchor_values t)"
  shows "\<exists>p. not_stisla_anchor_lower t key = Some p \<and> p < tsize t \<and>
     (sint key < anchor_values t ! 0 \<longrightarrow> p = 0) \<and>
     (anchor_values t ! 0 \<le> sint key \<longrightarrow>
        anchor_values t ! p \<le> sint key \<and>
        (sint key < anchor_values t ! (tsize t - 1) \<longrightarrow> sint key < anchor_values t ! (p + 1)) \<and>
        (tsize t \<le> 3 \<and> anchor_values t ! (tsize t - 1) \<le> sint key \<longrightarrow> p = tsize t - 1))"
proof -
  have mono: "anchor_values t ! j \<le> anchor_values t ! k" if "j \<le> k" "k < tsize t" for j k
    using assms(1,3) that by (simp add: sorted_nth_mono length_anchor_values)
  consider "tsize t = 1" | "tsize t = 2" | "tsize t = 3" | "4 \<le> tsize t"
    using assms(2) by linarith
  then show ?thesis
  proof cases
    case 1
    obtain a0 where a0: "anchor_read t 0 = Some a0" "sint (anchor_v a0) = anchor_values t ! 0"
      using anchor_read_live [OF assms(1), of 0] 1 by auto
    show ?thesis using 1 a0 by (simp add: not_stisla_anchor_lower_def)
  next
    case 2
    obtain a0 where a0: "anchor_read t 0 = Some a0" "sint (anchor_v a0) = anchor_values t ! 0"
      using anchor_read_live [OF assms(1), of 0] 2 by auto
    obtain a1 where a1: "anchor_read t 1 = Some a1" "sint (anchor_v a1) = anchor_values t ! 1"
      using anchor_read_live [OF assms(1), of 1] 2 by auto
    show ?thesis using 2 a0 a1 by (simp add: not_stisla_anchor_lower_def)
  next
    case 3
    obtain a0 where a0: "anchor_read t 0 = Some a0" "sint (anchor_v a0) = anchor_values t ! 0"
      using anchor_read_live [OF assms(1), of 0] 3 by auto
    obtain a1 where a1: "anchor_read t 1 = Some a1" "sint (anchor_v a1) = anchor_values t ! 1"
      using anchor_read_live [OF assms(1), of 1] 3 by auto
    obtain a2 where a2: "anchor_read t 2 = Some a2" "sint (anchor_v a2) = anchor_values t ! 2"
      using anchor_read_live [OF assms(1), of 2] 3 by auto
    have m: "anchor_values t ! 0 \<le> anchor_values t ! 1" "anchor_values t ! 1 \<le> anchor_values t ! 2"
      using mono [of 0 1] mono [of 1 2] 3 by simp_all
    show ?thesis
    proof (cases "sint (anchor_v a1) \<le> sint key")
      case True
      with 3 a0 a1 a2 m show ?thesis
        by (auto simp: not_stisla_anchor_lower_def numeral_2_eq_2)
    next
      case False
      with 3 a0 a1 a2 m show ?thesis
        by (auto simp: not_stisla_anchor_lower_def numeral_2_eq_2)
    qed
  next
    case 4
    define hi where "hi = tsize t - 1"
    from 4 have hi: "0 < hi" "hi < tsize t" by (simp_all add: hi_def)
    from anchor_lower_loop_spec [OF assms(1) hi, of key]
    obtain p where p: "anchor_lower_loop t key 0 hi = Some p" "p < hi"
      "anchor_values t ! 0 \<le> sint key \<longrightarrow> anchor_values t ! p \<le> sint key"
      "sint key < anchor_values t ! hi \<longrightarrow> sint key < anchor_values t ! (p + 1)"
      "(\<forall>k. 0 < k \<and> k < hi \<longrightarrow> sint key < anchor_values t ! k) \<longrightarrow> p = 0" by blast
    have "not_stisla_anchor_lower t key = Some p"
    proof -
      have "tsize t \<noteq> 0" "hi - 0 \<noteq> 0" "hi - 0 \<noteq> 1" "hi - 0 \<noteq> 2"
        using 4 by (simp_all add: hi_def)
      then show ?thesis
        unfolding not_stisla_anchor_lower_def Let_def hi_def [symmetric] using p(1) by simp
    qed
    moreover have "p = 0" if "sint key < anchor_values t ! 0"
    proof -
      have "sint key < anchor_values t ! k" if "k < hi" for k
        using mono [of 0 k] that hi \<open>sint key < anchor_values t ! 0\<close> by simp
      with p(5) show ?thesis by simp
    qed
    ultimately show ?thesis using p hi 4 by (auto simp: hi_def)
  qed
qed

lemmas anchor_lower_eval =
  not_stisla_anchor_lower_def anchor_read_def anchors_live_def anchor_values_def
  anchor_lower_loop.simps

theorem anchor_lower_position_witness:
  "anchors_live four_anchors \<and> 1 \<le> tsize four_anchors \<and> sorted (anchor_values four_anchors) \<and>
   not_stisla_anchor_lower four_anchors 15 = Some 1 \<and>
   anchor_values four_anchors ! 1 \<le> sint (15 :: int64) \<and>
   sint (15 :: int64) < anchor_values four_anchors ! 2"
  using anchor_lower_position [of four_anchors 15]
  by (simp add: four_anchors_def anchor_lower_eval)

text \<open>
  C3 as stated fails: with four anchors and a key above every anchor value the binary
  search returns the position before the last one, and for a key below the only anchor
  value the position returned holds a value above the key.
\<close>

theorem anchor_lower_not_contract:
  "not_stisla_anchor_lower four_anchors 35 = Some 2 \<and>
   anchor_values four_anchors = [0, 10, 20, 30] \<and>
   not_stisla_anchor_lower
     \<lparr>anchors = [Some \<lparr>anchor_v = 10, anchor_i = 0\<rparr>, None, None, None, None, None, None, None],
      capacity = 8, tsize = 1, searches_performed = 0, workload_type = - 1\<rparr> 5 = Some 0"
  by (simp add: four_anchors_def anchor_lower_eval)

section \<open>Every index returned holds the key\<close>

lemma arr_read_Some: "arr_read arr k = Some x \<longleftrightarrow> k < length arr \<and> arr ! k = x"
  by (auto simp: arr_read_def)

lemma scan_loop_sound:
  "scan_loop arr k n key = Some j \<Longrightarrow> j \<noteq> NOT_STISLA_NOT_FOUND \<Longrightarrow>
     k \<le> j \<and> j < n \<and> j < length arr \<and> arr ! j = key"
proof (induction arr k n key rule: scan_loop.induct)
  case (1 arr k n key)
  from "1.prems" have kn: "k < n"
    by (subst (asm) scan_loop.simps) (auto split: if_splits)
  with "1.prems"(1) obtain x where x: "arr_read arr k = Some x"
    and r: "(if x = key then Some k else scan_loop arr (k + 1) n key) = Some j"
    by (subst (asm) scan_loop.simps) (auto simp: bind_eq_Some_conv)
  show ?case
  proof (cases "x = key")
    case True
    with r x kn show ?thesis by (auto simp: arr_read_Some)
  next
    case False
    with r have "scan_loop arr (k + 1) n key = Some j" by simp
    from "1.IH" [OF kn x False this "1.prems"(2)] show ?thesis by simp
  qed
qed

lemma first_set_bound: "first_set cs k = Some j \<Longrightarrow> k \<le> j \<and> j < k + length cs \<and> cs ! (j - k)"
proof (induction cs arbitrary: k)
  case Nil
  then show ?case by simp
next
  case (Cons c cs)
  show ?case
  proof (cases c)
    case True
    with Cons.prems show ?thesis by simp
  next
    case False
    with Cons.prems have "first_set cs (k + 1) = Some j" by simp
    from Cons.IH [OF this] have "k + 1 \<le> j" "j < k + 1 + length cs" "cs ! (j - (k + 1))"
      by simp_all
    moreover from \<open>k + 1 \<le> j\<close> have "j - k = Suc (j - (k + 1))" by simp
    then have "(c # cs) ! (j - k) = cs ! (j - (k + 1))" by simp
    ultimately show ?thesis by simp
  qed
qed

lemma chunk_loop_sound:
  "chunk_loop arr chunk fc key = Some (Some j) \<Longrightarrow>
     j < fc * 4 \<and> j < length arr \<and> arr ! j = key"
proof (induction arr chunk fc key rule: chunk_loop.induct)
  case (1 arr chunk fc key)
  define base where "base = chunk * NOT_STISLA_CHUNK_SIZE"
  from "1.prems" have c: "chunk < fc"
    by (subst (asm) chunk_loop.simps) (auto split: if_splits)
  with "1.prems" obtain x0 x1 x2 x3 where
    x: "arr_read arr base = Some x0" "arr_read arr (base + 1) = Some x1"
       "arr_read arr (base + 2) = Some x2" "arr_read arr (base + 3) = Some x3"
    and r: "(case first_set [x0 = key, x1 = key, x2 = key, x3 = key] 0 of
              Some k \<Rightarrow> Some (Some (base + k))
            | None \<Rightarrow> chunk_loop arr (chunk + 1) fc key) = Some (Some j)"
    by (subst (asm) chunk_loop.simps)
       (auto simp: bind_eq_Some_conv Let_def base_def [symmetric])
  show ?case
  proof (cases "first_set [x0 = key, x1 = key, x2 = key, x3 = key] 0")
    case None
    with r have "chunk_loop arr (chunk + 1) fc key = Some (Some j)" by simp
    from "1.IH" [OF c base_def x None this] show ?thesis .
  next
    case (Some k)
    with r have j: "j = base + k" by simp
    from first_set_bound [OF Some] have k: "k < 4" "[x0 = key, x1 = key, x2 = key, x3 = key] ! k"
      by simp_all
    from k(1) consider "k = 0" | "k = 1" | "k = 2" | "k = 3" by linarith
    then have "arr_read arr (base + k) = Some key"
      using k(2) x by cases simp_all
    moreover have "base + k < fc * 4" using c k(1) by (simp add: base_def NOT_STISLA_CHUNK_SIZE_def)
    ultimately show ?thesis using j by (simp add: arr_read_Some)
  qed
qed

lemma chunked_search_sound:
  assumes "not_stisla_chunked_search arr n key = Some j" "j \<noteq> NOT_STISLA_NOT_FOUND"
  shows "j < n \<and> j < length arr \<and> arr ! j = key"
proof (cases "n \<le> NOT_STISLA_CHUNK_SIZE")
  case True
  with assms scan_loop_sound [of arr 0 n key j] show ?thesis
    by (simp add: not_stisla_chunked_search_def)
next
  case False
  define fc where "fc = n div NOT_STISLA_CHUNK_SIZE"
  have fc: "fc * 4 \<le> n" by (simp add: fc_def NOT_STISLA_CHUNK_SIZE_def)
  from assms(1) False have "chunk_loop arr 0 fc key \<bind>
      (\<lambda>r. case r of Some k \<Rightarrow> Some k
            | None \<Rightarrow> scan_loop arr (fc * NOT_STISLA_CHUNK_SIZE) n key) = Some j"
    unfolding not_stisla_chunked_search_def Let_def fc_def by simp
  then obtain r where r: "chunk_loop arr 0 fc key = Some r"
    and s: "(case r of Some k \<Rightarrow> Some k
             | None \<Rightarrow> scan_loop arr (fc * NOT_STISLA_CHUNK_SIZE) n key) = Some j"
    by (auto simp: bind_eq_Some_conv)
  show ?thesis
  proof (cases r)
    case None
    with s assms(2) scan_loop_sound [of arr "fc * NOT_STISLA_CHUNK_SIZE" n key j]
    show ?thesis by simp
  next
    case (Some k)
    with s r chunk_loop_sound [of arr 0 fc key j] fc show ?thesis by simp
  qed
qed

lemma local_search_loop_sound:
  "local_search_loop arr lo hi key = Some j \<Longrightarrow> j \<noteq> NOT_STISLA_NOT_FOUND \<Longrightarrow>
     lo \<le> j \<and> j \<le> hi \<and> j < length arr \<and> arr ! j = key"
proof (induction arr lo hi key rule: local_search_loop.induct)
  case (1 arr lo hi key)
  define mid where "mid = lo + (hi - lo) div 2"
  from "1.prems" have lh: "lo \<le> hi"
    by (subst (asm) local_search_loop.simps) (auto split: if_splits)
  then have m: "lo \<le> mid" "mid \<le> hi" by (simp_all add: mid_def)
  from "1.prems"(1) lh obtain x where x: "arr_read arr mid = Some x"
    and r: "(if sint x < sint key then local_search_loop arr (mid + 1) hi key
             else if sint x > sint key then
               (if mid = 0 then Some NOT_STISLA_NOT_FOUND
                else local_search_loop arr lo (mid - 1) key)
             else Some mid) = Some j"
    by (subst (asm) local_search_loop.simps)
       (auto simp: bind_eq_Some_conv Let_def mid_def [symmetric])
  consider "sint x < sint key" | "sint x > sint key" | "sint x = sint key" by linarith
  then show ?case
  proof cases
    case 1
    with r have "local_search_loop arr (mid + 1) hi key = Some j" by simp
    from "1.IH"(1) [OF lh mid_def x 1 this "1.prems"(2)] m show ?thesis by simp
  next
    case 2
    then have n1: "\<not> sint x < sint key" by simp
    from 2 r "1.prems"(2) have m0: "mid \<noteq> 0"
      and "local_search_loop arr lo (mid - 1) key = Some j" by (auto split: if_splits)
    from "1.IH"(2) [OF lh mid_def x n1 2 m0 this(2) "1.prems"(2)] m show ?thesis by auto
  next
    case 3
    then have "x = key" by (auto intro: signed_word_eqI)
    with 3 r x m show ?thesis by (auto simp: arr_read_Some)
  qed
qed

lemma local_search_sound:
  assumes "not_stisla_local_search arr lo hi key = Some j" "j \<noteq> NOT_STISLA_NOT_FOUND"
  shows "lo \<le> j \<and> j \<le> hi \<and> j < length arr \<and> arr ! j = key"
proof -
  from assms have "local_search_loop arr lo hi key = Some j"
    by (auto simp: not_stisla_local_search_def bind_eq_Some_conv split: if_splits)
  from local_search_loop_sound [OF this assms(2)] show ?thesis .
qed

lemma sorted_array_mono:
  assumes "sorted_array arr n" "a \<le> b" "b < n"
  shows "sint (arr ! a) \<le> sint (arr ! b)"
proof -
  from assms have "map sint (take n arr) ! a \<le> map sint (take n arr) ! b"
    by (intro sorted_nth_mono) (simp_all add: sorted_array_def)
  with assms show ?thesis by (simp add: sorted_array_def)
qed

lemma local_search_loop_finds:
  "sorted_array arr n \<Longrightarrow> hi < n \<Longrightarrow> lo \<le> k \<Longrightarrow> k \<le> hi \<Longrightarrow> arr ! k = key \<Longrightarrow>
   \<exists>j. local_search_loop arr lo hi key = Some j \<and> lo \<le> j \<and> j \<le> hi \<and> arr ! j = key"
proof (induction arr lo hi key rule: local_search_loop.induct)
  case (1 arr lo hi key)
  define mid where "mid = lo + (hi - lo) div 2"
  from "1.prems" have lh: "lo \<le> hi" by simp
  then have m: "lo \<le> mid" "mid \<le> hi" by (simp_all add: mid_def)
  from "1.prems"(1,2) m have rd: "arr_read arr mid = Some (arr ! mid)"
    by (simp add: arr_read_def sorted_array_def)
  have unf: "local_search_loop arr lo hi key =
     (if sint (arr ! mid) < sint key then local_search_loop arr (mid + 1) hi key
      else if sint (arr ! mid) > sint key then
        (if mid = 0 then Some NOT_STISLA_NOT_FOUND
         else local_search_loop arr lo (mid - 1) key)
      else Some mid)"
    using lh rd by (subst local_search_loop.simps) (simp add: mid_def [symmetric])
  consider "sint (arr ! mid) < sint key" | "sint (arr ! mid) > sint key"
    | "sint (arr ! mid) = sint key" by linarith
  then show ?case
  proof cases
    case 1
    have "mid < k"
    proof (rule ccontr)
      assume "\<not> mid < k"
      then have "k \<le> mid" by simp
      from sorted_array_mono [OF "1.prems"(1) this] m "1.prems"(2,5) 1 show False by simp
    qed
    then have "mid + 1 \<le> k" by simp
    from "1.IH"(1) [OF lh mid_def rd 1 "1.prems"(1,2) this "1.prems"(4,5)] m 1 unf
    show ?thesis by auto
  next
    case 2
    then have n1: "\<not> sint (arr ! mid) < sint key" by simp
    have "k < mid"
    proof (rule ccontr)
      assume "\<not> k < mid"
      then have "mid \<le> k" by simp
      from sorted_array_mono [OF "1.prems"(1) this] "1.prems"(2,4,5) 2 show False by simp
    qed
    then have m0: "mid \<noteq> 0" and km: "k \<le> mid - 1" by simp_all
    from m "1.prems"(2) have "mid - 1 < n" by simp
    from "1.IH"(2) [OF lh mid_def rd n1 2 m0 "1.prems"(1) this "1.prems"(3) km "1.prems"(5)]
      m 2 n1 m0 unf
    show ?thesis by auto
  next
    case 3
    then have "arr ! mid = key" by (auto intro: signed_word_eqI)
    with 3 m unf show ?thesis by simp
  qed
qed

text \<open>
  On a sorted array a window of two or more elements that holds the key is searched with
  success: what \<open>not_stisla_local_search\<close> misses is the window of one element alone.
\<close>

lemma local_search_finds:
  assumes "sorted_array arr n" "lo < hi" "hi < n" "lo \<le> k" "k \<le> hi" "arr ! k = key"
  shows "\<exists>j. not_stisla_local_search arr lo hi key = Some j \<and> lo \<le> j \<and> j \<le> hi \<and>
             arr ! j = key"
proof -
  from assms have rd: "arr_read arr lo = Some (arr ! lo)" "arr_read arr hi = Some (arr ! hi)"
    by (simp_all add: arr_read_def sorted_array_def)
  from sorted_array_mono [OF assms(1,4)] assms have a: "\<not> sint (arr ! lo) > sint key" by simp
  from sorted_array_mono [OF assms(1,5,3)] assms have b: "\<not> sint (arr ! hi) < sint key" by simp
  from assms(2) rd a b have "not_stisla_local_search arr lo hi key = local_search_loop arr lo hi key"
    by (simp add: not_stisla_local_search_def)
  with local_search_loop_finds [OF assms(1,3,4,5,6)] show ?thesis by simp
qed

section \<open>The steps of a search\<close>

lemma init_endpoints_Seeded:
  assumes "init_endpoints mo arr n t = Some (Seeded t1)"
  shows "searches_performed t1 = searches_performed t \<and> workload_type t1 = workload_type t \<and>
         (tsize t \<noteq> 0 \<and> t1 = t \<or>
          tsize t = 0 \<and> tsize t1 = 2 \<and>
          (\<exists>buf x0 xn. (buf = anchors t \<and> capacity t \<noteq> 0 \<and> capacity t1 = capacity t \<or>
                         buf = replicate 2 None \<and> capacity t = 0 \<and> mo \<and> capacity t1 = 2) \<and>
             2 \<le> length buf \<and> arr_read arr 0 = Some x0 \<and> arr_read arr (n - 1) = Some xn \<and>
             anchors t1 = buf[0 := Some \<lparr>anchor_v = x0, anchor_i = 0\<rparr>,
                              1 := Some \<lparr>anchor_v = xn, anchor_i = n - 1\<rparr>]))"
proof (cases "tsize t = 0")
  case False
  with assms show ?thesis by (simp add: init_endpoints_def)
next
  case True
  show ?thesis
  proof (cases "capacity t = 0")
    case c0: True
    with True assms have mo: mo by (auto simp: init_endpoints_def split: if_splits)
    with True c0 assms show ?thesis
      by (auto simp: init_endpoints_def bind_eq_Some_conv anchor_write_def split: if_splits)
  next
    case False
    with True assms show ?thesis
      by (auto simp: init_endpoints_def bind_eq_Some_conv anchor_write_def split: if_splits)
  qed
qed

lemma init_endpoints_NoMemory:
  assumes "init_endpoints mo arr n t = Some (NoMemory t0)"
  shows "t0 = t\<lparr>anchors := []\<rparr> \<and> tsize t = 0 \<and> capacity t = 0 \<and> \<not> mo"
  using assms
  by (auto simp: init_endpoints_def bind_eq_Some_conv split: if_splits)

lemma learn_anchor_frame:
  assumes "not_stisla_learn_anchor ro (Ptr t) x j pred tol = Some r"
  shows "\<exists>t'. r = Ptr t' \<and> searches_performed t' = searches_performed t \<and>
              workload_type t' = workload_type t"
  using assms
  by (auto simp: not_stisla_learn_anchor_def Let_def bind_eq_Some_conv
           split: if_splits option.splits)

lemma search_window_Some:
  assumes "search_window t key tol = Some (pred, lo, hi)"
  obtains a_idx l r p where
    "not_stisla_anchor_lower t key = Some a_idx"
    "anchor_read t a_idx = Some l" "anchor_read t (a_idx + 1) = Some r"
    "not_stisla_interpolate (anchor_v l) (anchor_v r) (anchor_i l) (anchor_i r) key = Some p"
    "pred = unat p" "(lo, hi) = search_bounds pred tol (anchor_i l) (anchor_i r)"
  using assms unfolding search_window_def by (auto simp: bind_eq_Some_conv)

lemma search_bounds_hi: "(lo, hi) = search_bounds pred tol l_i r_i \<Longrightarrow> hi \<le> r_i"
  by (auto simp: search_bounds_def Let_def split: if_splits)

lemma anchor_read_Some:
  "anchor_read t k = Some a \<longleftrightarrow> k < length (anchors t) \<and> anchors t ! k = Some a"
  by (auto simp: anchor_read_def)

lemma search_window_hi:
  assumes "search_window t key tol = Some (pred, lo, hi)"
  shows "\<exists>k r. k < length (anchors t) \<and> anchors t ! k = Some r \<and> hi \<le> anchor_i r"
proof -
  from assms obtain a_idx and l :: anchor and r where
    r: "anchor_read t (a_idx + 1) = Some r"
    and w: "(lo, hi) = search_bounds pred tol (anchor_i l) (anchor_i r)"
    by (rule search_window_Some)
  from search_bounds_hi [OF w] r show ?thesis unfolding anchor_read_Some by blast
qed

lemma search_small:
  assumes "n < 32" "n \<noteq> 0"
  shows "not_stisla_search mo ro (Ptr arr) n key table tol =
           map_option (\<lambda>r. (r, table)) (not_stisla_chunked_search arr n key)"
  using assms by (cases "not_stisla_chunked_search arr n key") (simp_all add: not_stisla_search_def)

lemma search_large:
  assumes "not_stisla_search mo ro (Ptr arr) n key table tol = Some (j, table')" "32 \<le> n"
  obtains (nomem) t0 where
      "init_endpoints mo arr n (case table of NULL \<Rightarrow> local_table | Ptr t \<Rightarrow> t) = Some (NoMemory t0)"
      "j = NOT_STISLA_NOT_FOUND" "table' = map_ptr (\<lambda>_. t0) table"
  | (miss) t1 pred lo hi where
      "init_endpoints mo arr n (case table of NULL \<Rightarrow> local_table | Ptr t \<Rightarrow> t) = Some (Seeded t1)"
      "search_window t1 key tol = Some (pred, lo, hi)"
      "not_stisla_local_search arr lo hi key = Some j"
      "j = NOT_STISLA_NOT_FOUND \<or> table = NULL" "table' = map_ptr (\<lambda>_. t1) table"
  | (hit) t1 pred lo hi t2 where
      "init_endpoints mo arr n (case table of NULL \<Rightarrow> local_table | Ptr t \<Rightarrow> t) = Some (Seeded t1)"
      "search_window t1 key tol = Some (pred, lo, hi)"
      "not_stisla_local_search arr lo hi key = Some j"
      "j \<noteq> NOT_STISLA_NOT_FOUND" "table \<noteq> NULL" "arr_read arr j = Some (arr ! j)"
      "not_stisla_learn_anchor ro (Ptr t1) (arr ! j) j pred tol = Some t2"
      "table' = map_ptr (\<lambda>t. t\<lparr>searches_performed := size_add (searches_performed t) 1\<rparr>) t2"
proof -
  from assms obtain s where
    s: "init_endpoints mo arr n (case table of NULL \<Rightarrow> local_table | Ptr t \<Rightarrow> t) = Some s"
    and rest: "(case s of
                   NoMemory t0 \<Rightarrow> Some (NOT_STISLA_NOT_FOUND, map_ptr (\<lambda>_. t0) table)
                 | Seeded t1 \<Rightarrow>
                     do { (pred, lo, hi) \<leftarrow> search_window t1 key tol;
                          result \<leftarrow> not_stisla_local_search arr lo hi key;
                          if result \<noteq> NOT_STISLA_NOT_FOUND \<and> table \<noteq> NULL then
                            do { x \<leftarrow> arr_read arr result;
                                 t2 \<leftarrow> not_stisla_learn_anchor ro (Ptr t1) x result
                                         pred tol;
                                 Some (result,
                                       map_ptr (\<lambda>t. t\<lparr>searches_performed :=
                                                         size_add (searches_performed t) 1\<rparr>) t2) }
                          else Some (result, map_ptr (\<lambda>_. t1) table) }) = Some (j, table')"
    unfolding not_stisla_search_def by (auto simp: bind_eq_Some_conv split: if_splits)
  show thesis
  proof (cases s)
    case (NoMemory t0)
    with s rest show thesis by (intro nomem [of t0]) auto
  next
    case (Seeded t1)
    with rest obtain pred lo hi where w: "search_window t1 key tol = Some (pred, lo, hi)"
      and ls: "not_stisla_local_search arr lo hi key \<bind>
         (\<lambda>result. if result \<noteq> NOT_STISLA_NOT_FOUND \<and> table \<noteq> NULL then
                            do { x \<leftarrow> arr_read arr result;
                                 t2 \<leftarrow> not_stisla_learn_anchor ro (Ptr t1) x result
                                         pred tol;
                                 Some (result,
                                       map_ptr (\<lambda>t. t\<lparr>searches_performed :=
                                                         size_add (searches_performed t) 1\<rparr>) t2) }
                          else Some (result, map_ptr (\<lambda>_. t1) table)) = Some (j, table')"
      by (auto simp: bind_eq_Some_conv)
    then obtain result where res: "not_stisla_local_search arr lo hi key = Some result"
      and fin: "(if result \<noteq> NOT_STISLA_NOT_FOUND \<and> table \<noteq> NULL then
                            do { x \<leftarrow> arr_read arr result;
                                 t2 \<leftarrow> not_stisla_learn_anchor ro (Ptr t1) x result
                                         pred tol;
                                 Some (result,
                                       map_ptr (\<lambda>t. t\<lparr>searches_performed :=
                                                         size_add (searches_performed t) 1\<rparr>) t2) }
                          else Some (result, map_ptr (\<lambda>_. t1) table)) = Some (j, table')"
      by (auto simp: bind_eq_Some_conv)
    show thesis
    proof (cases "result \<noteq> NOT_STISLA_NOT_FOUND \<and> table \<noteq> NULL")
      case False
      with fin have "j = result" "table' = map_ptr (\<lambda>_. t1) table" by auto
      with False s Seeded w res show thesis by (intro miss [of t1 pred lo hi]) auto
    next
      case True
      with fin obtain x t2 where x: "arr_read arr result = Some x"
        and l: "not_stisla_learn_anchor ro (Ptr t1) x result pred tol = Some t2"
        and e: "j = result"
          "table' = map_ptr (\<lambda>t. t\<lparr>searches_performed := size_add (searches_performed t) 1\<rparr>) t2"
        by (auto simp: bind_eq_Some_conv)
      from x have "x = arr ! result" by (auto simp: arr_read_def split: if_splits)
      with True s Seeded w res x l e show thesis by (intro hit [of t1 pred lo hi t2]) auto
    qed
  qed
qed

section \<open>Searches at concrete inputs, and the counter\<close>

lemma replicate_cells:
  "replicate 8 x = [x, x, x, x, x, x, x, x]" "replicate 2 x = [x, x]"
  by (simp_all add: numeral_eq_Suc)

lemmas search_eval =
  replicate_cells not_stisla_search_def init_endpoints_def search_window_def search_bounds_def
  not_stisla_anchor_lower_def not_stisla_interpolate_def not_stisla_local_search_def
  not_stisla_learn_anchor_def not_stisla_anchor_table_create_def anchor_read_def arr_read_def
  anchor_write_def size_add_def size_sub_def in_int128_def NOT_STISLA_NOT_FOUND_def SIZE_MAX_def
  signed_divide_int_def local_table_def max_anchors_for_def

text \<open>
  C4 at a window of one element: the guard is \<open>lo >= hi\<close>, so the local search answers
  \<open>NOT_FOUND\<close> although the only element of the window is the key.
\<close>

theorem local_search_single_element_window:
  "sorted_array linear_array 32 \<and> linear_array ! 5 = 5 \<and>
   not_stisla_local_search linear_array 5 5 5 = Some NOT_STISLA_NOT_FOUND"
  by (simp add: linear_array_def sorted_array_def not_stisla_local_search_def)

text \<open>With tolerance \<open>0\<close> every window has one element, and no search finds its key.\<close>

lemma search_tolerance_zero:
  "not_stisla_search True True (Ptr linear_array) 32 5
     (not_stisla_anchor_table_create True True) 0 =
   Some (NOT_STISLA_NOT_FOUND,
         Ptr \<lparr>anchors = [Some \<lparr>anchor_v = 0, anchor_i = 0\<rparr>,
                          Some \<lparr>anchor_v = 31, anchor_i = 31\<rparr>,
                          None, None, None, None, None, None],
              capacity = 8, tsize = 2, searches_performed = 0, workload_type = - 1\<rparr>)"
  by (simp add: linear_array_def search_eval)

text \<open>
  C1 at a sorted array whose values are not spread evenly: the key \<open>20\<close> is at index \<open>20\<close>,
  the prediction is \<open>0\<close>, the window is \<open>[0, 8]\<close>, and the search answers \<open>NOT_FOUND\<close>.
\<close>

theorem search_misses_present_key:
  "sorted_array skewed_array 32 \<and> skewed_array ! 20 = 20 \<and>
   not_stisla_search True True (Ptr skewed_array) 32 20
     (not_stisla_anchor_table_create True True) 8 =
   Some (NOT_STISLA_NOT_FOUND,
         Ptr \<lparr>anchors = [Some \<lparr>anchor_v = 0, anchor_i = 0\<rparr>,
                          Some \<lparr>anchor_v = 1000, anchor_i = 31\<rparr>,
                          None, None, None, None, None, None],
              capacity = 8, tsize = 2, searches_performed = 0, workload_type = - 1\<rparr>)"
  by (simp add: skewed_array_def sorted_array_def search_eval)

text \<open>
  A search for the last element of the array on a new table: the locator returns the last
  anchor, and the right anchor is read from the cell after it, which was never written.
\<close>

lemma search_last_element_undefined:
  "not_stisla_search True True (Ptr linear_array) 32 31
     (not_stisla_anchor_table_create True True) 8 = None"
  by (simp add: linear_array_def search_eval)

lemma size_add_1: "c < SIZE_MAX \<Longrightarrow> size_add c (Suc 0) = Suc c"
  by (simp add: size_add_def SIZE_MAX_def)

text \<open>
  C9 (amended). A search with a table the caller supplied returns that table. For an array
  of at least 32 elements the counter \<open>searches_performed\<close> is one more (modulo
  \<open>2 ^ 64\<close>) when an index was found and unchanged when the answer is \<open>NOT_FOUND\<close>; for an
  array of fewer than 32 elements it is unchanged whatever the answer.
\<close>

theorem search_counter:
  assumes "not_stisla_search mo ro arr_p n key (Ptr t) tol = Some (j, table')"
  shows "\<exists>t'. table' = Ptr t' \<and>
     (if 32 \<le> n \<and> j \<noteq> NOT_STISLA_NOT_FOUND
      then searches_performed t' = size_add (searches_performed t) 1 \<and>
           (searches_performed t < SIZE_MAX \<longrightarrow> searches_performed t' = searches_performed t + 1)
      else searches_performed t' = searches_performed t)"
proof (cases arr_p)
  case NULL
  with assms show ?thesis by (auto simp: not_stisla_search_def)
next
  case (Ptr arr)
  show ?thesis
  proof (cases "32 \<le> n")
    case False
    with assms Ptr show ?thesis
      by (auto simp: not_stisla_search_def bind_eq_Some_conv split: if_splits)
  next
    case True
    from assms [unfolded Ptr] True show ?thesis
    proof (cases rule: search_large)
      case (nomem t0)
      with init_endpoints_NoMemory [of mo arr n t t0] True show ?thesis by simp
    next
      case (miss t1 pred lo hi)
      with init_endpoints_Seeded [of mo arr n t t1] True show ?thesis by simp
    next
      case (hit t1 pred lo hi t2)
      from learn_anchor_frame [OF hit(7)] obtain t' where
        t': "t2 = Ptr t'" "searches_performed t' = searches_performed t1" by blast
      with hit init_endpoints_Seeded [of mo arr n t t1] True show ?thesis
        by (simp add: size_add_1)
    qed
  qed
qed

theorem search_counter_witness:
  "not_stisla_search True True (Ptr linear_array) 32 5
     (Ptr \<lparr>anchors = replicate 8 None, capacity = 8, tsize = 0, searches_performed = 0,
           workload_type = - 1\<rparr>) 8 =
   Some (5, Ptr \<lparr>anchors = [Some \<lparr>anchor_v = 0, anchor_i = 0\<rparr>,
                          Some \<lparr>anchor_v = 31, anchor_i = 31\<rparr>,
                          None, None, None, None, None, None],
              capacity = 8, tsize = 2, searches_performed = 1, workload_type = - 1\<rparr>) \<and>
   (32::nat) \<le> 32 \<and> 5 \<noteq> NOT_STISLA_NOT_FOUND \<and> (0::nat) < SIZE_MAX"
  using search_counter [of True True "Ptr linear_array" 32 5
     "\<lparr>anchors = replicate 8 None, capacity = 8, tsize = 0, searches_performed = 0,
           workload_type = - 1\<rparr>" 8 5]
  by (simp add: linear_array_def search_eval local_search_loop.simps)

text \<open>
  C9 as stated fails on the small-array path: the key is found at index 3 of an array of
  10 elements and the table, with its counter, is as before.
\<close>

theorem small_array_hit_not_counted:
  "not_stisla_search True True (Ptr [10, 20, 30, 40, 50, 60, 70, 80, 90, 100]) 10 40
     (Ptr \<lparr>anchors = replicate 8 None, capacity = 8, tsize = 0, searches_performed = 0,
           workload_type = - 1\<rparr>) 8 =
   Some (3, Ptr \<lparr>anchors = replicate 8 None, capacity = 8, tsize = 0, searches_performed = 0,
           workload_type = - 1\<rparr>) \<and> 3 \<noteq> NOT_STISLA_NOT_FOUND"
  by (simp add: not_stisla_search_def not_stisla_chunked_search_def NOT_STISLA_CHUNK_SIZE_def
       chunk_loop.simps scan_loop.simps arr_read_def NOT_STISLA_NOT_FOUND_def SIZE_MAX_def)

section \<open>Soundness of the returned index\<close>

lemma indices_below_cell:
  assumes "anchor_indices_below (Ptr t) n" "k < length (anchors t)" "anchors t ! k = Some a"
  shows "anchor_i a < n"
  using assms by (auto simp: anchor_indices_below_def list_all_length split: option.splits)

lemma seeded_cells_below:
  assumes "init_endpoints mo arr n t = Some (Seeded t1)" "32 \<le> n"
    and "tsize t = 0 \<and> capacity t = 0 \<or> anchor_indices_below (Ptr t) n"
    and "k < length (anchors t1)" "anchors t1 ! k = Some a"
  shows "anchor_i a < n"
proof -
  from init_endpoints_Seeded [OF assms(1)]
  consider "tsize t \<noteq> 0" "t1 = t"
    | buf x0 xn where "tsize t = 0"
        "buf = anchors t \<and> capacity t \<noteq> 0 \<or> buf = replicate 2 None \<and> capacity t = 0"
        "anchors t1 = buf[0 := Some \<lparr>anchor_v = x0, anchor_i = 0\<rparr>,
                          1 := Some \<lparr>anchor_v = xn, anchor_i = n - 1\<rparr>]"
    by blast
  then show ?thesis
  proof cases
    case 1
    with assms show ?thesis by (auto intro: indices_below_cell)
  next
    case 2
    have len: "k < length buf" using assms(4) 2(3) by simp
    show ?thesis
    proof (cases "k = 0 \<or> k = 1")
      case True
      with assms(2,5) 2(3) len show ?thesis by auto
    next
      case False
      with assms(5) 2(3) have c: "buf ! k = Some a" by simp
      from 2(2) show ?thesis
      proof
        assume "buf = anchors t \<and> capacity t \<noteq> 0"
        with assms(3) c len show ?thesis by (auto intro: indices_below_cell)
      next
        assume "buf = replicate 2 None \<and> capacity t = 0"
        with c len show ?thesis by simp
      qed
    qed
  qed
qed

text \<open>
  What the search does guarantee for a returned index: whatever the array, the table and
  the tolerance, an index the search returns (other than \<open>NOT_FOUND\<close>) is one the search
  has read from the array and found to hold the key. It is below \<open>n\<close> when every anchor
  written in the table has an index below \<open>n\<close>: the window is bounded by the indices of the
  anchors, never by \<open>n\<close> itself.
\<close>

lemma search_result_sound:
  assumes "not_stisla_search mo ro (Ptr arr) n key table tol = Some (j, table')"
    and "j \<noteq> NOT_STISLA_NOT_FOUND"
  shows "j < length arr \<and> arr ! j = key \<and> (anchor_indices_below table n \<longrightarrow> j < n)"
proof (cases "32 \<le> n")
  case False
  with assms have "not_stisla_chunked_search arr n key = Some j"
    by (auto simp: not_stisla_search_def bind_eq_Some_conv split: if_splits)
  from chunked_search_sound [OF this assms(2)] show ?thesis by simp
next
  case True
  define t where "t = (case table of NULL \<Rightarrow> local_table | Ptr t \<Rightarrow> t)"
  have pre: "tsize t = 0 \<and> capacity t = 0 \<or> anchor_indices_below (Ptr t) n"
    if "anchor_indices_below table n"
    using that by (cases table) (simp_all add: t_def local_table_def)
  have main: "j < length arr \<and> arr ! j = key \<and> (anchor_indices_below table n \<longrightarrow> j < n)"
    if s: "init_endpoints mo arr n t = Some (Seeded t1)"
      and w: "search_window t1 key tol = Some (pred, lo, hi)"
      and l: "not_stisla_local_search arr lo hi key = Some j" for t1 pred lo hi
  proof -
    from local_search_sound [OF l assms(2)]
    have j: "j \<le> hi" "j < length arr" "arr ! j = key" by simp_all
    from search_window_hi [OF w] obtain k r where
      r: "k < length (anchors t1)" "anchors t1 ! k = Some r" "hi \<le> anchor_i r" by blast
    have "j < n" if "anchor_indices_below table n"
      using seeded_cells_below [OF s True pre [OF that] r(1,2)] r(3) j(1) by simp
    with j show ?thesis by simp
  qed
  from assms(1) True show ?thesis
  proof (cases rule: search_large)
    case (nomem t0)
    with assms(2) show ?thesis by simp
  next
    case (miss t1 pred lo hi)
    then show ?thesis using main [of t1 pred lo hi] by (simp add: t_def)
  next
    case (hit t1 pred lo hi t2)
    then show ?thesis using main [of t1 pred lo hi] by (simp add: t_def)
  qed
qed

lemma search_result_sound_example:
  "not_stisla_search True True (Ptr forty_array) 40 36 (not_stisla_anchor_table_create True True) 8 =
   Some (36, Ptr \<lparr>anchors = [Some \<lparr>anchor_v = 0, anchor_i = 0\<rparr>,
                          Some \<lparr>anchor_v = 39, anchor_i = 39\<rparr>,
                          None, None, None, None, None, None],
              capacity = 8, tsize = 2, searches_performed = 1, workload_type = - 1\<rparr>) \<and>
   36 \<noteq> NOT_STISLA_NOT_FOUND \<and>
   anchor_indices_below (not_stisla_anchor_table_create True True) 40 \<and>
   36 < length forty_array \<and> forty_array ! 36 = 36 \<and> (36::nat) < 40"
  using search_result_sound [of True True forty_array 40 36
     "not_stisla_anchor_table_create True True" 8 36]
  by (simp add: forty_array_def search_eval local_search_loop.simps anchor_indices_below_def)

text \<open>
  C10, at a table seeded on a longer part of the array. The array is \<open>0, 1, ..., 39\<close>. A
  search with \<open>n = 40\<close> on a new table seeds the anchors \<open>(0, 0)\<close> and \<open>(39, 39)\<close>. The
  next search on this table, with \<open>n = 32\<close> and the key 36, takes its window from the
  anchor index 39, reads the elements 39, 33 and 36 of the array, all beyond the 32 elements
  it was given, and returns the index 36: a value other than \<open>NOT_FOUND\<close> that is not below
  \<open>n\<close>.
\<close>

theorem search_returns_index_beyond_n:
  "not_stisla_search True True (Ptr forty_array) 40 5 (not_stisla_anchor_table_create True True) 8 =
   Some (5, Ptr \<lparr>anchors = [Some \<lparr>anchor_v = 0, anchor_i = 0\<rparr>,
                          Some \<lparr>anchor_v = 39, anchor_i = 39\<rparr>,
                          None, None, None, None, None, None],
              capacity = 8, tsize = 2, searches_performed = 1, workload_type = - 1\<rparr>) \<and>
   not_stisla_search True True (Ptr forty_array) 32 36
     (Ptr \<lparr>anchors = [Some \<lparr>anchor_v = 0, anchor_i = 0\<rparr>,
                          Some \<lparr>anchor_v = 39, anchor_i = 39\<rparr>,
                          None, None, None, None, None, None],
              capacity = 8, tsize = 2, searches_performed = 1, workload_type = - 1\<rparr>) 8 =
   Some (36, Ptr \<lparr>anchors = [Some \<lparr>anchor_v = 0, anchor_i = 0\<rparr>,
                          Some \<lparr>anchor_v = 39, anchor_i = 39\<rparr>,
                          None, None, None, None, None, None],
              capacity = 8, tsize = 2, searches_performed = 2, workload_type = - 1\<rparr>) \<and>
   36 \<noteq> NOT_STISLA_NOT_FOUND \<and> \<not> (36::nat) < 32"
  by (simp add: forty_array_def search_eval local_search_loop.simps)

section \<open>The anchor cap\<close>

lemma max_anchors_for_ge: "8 \<le> max_anchors_for w"
  by (simp add: max_anchors_for_def NOT_STISLA_MAX_ANCHORS_def)

lemma learn_anchor_within_cap:
  assumes "not_stisla_learn_anchor ro (Ptr t) x j pred tol = Some r" "within_cap (Ptr t)"
  shows "within_cap r"
  using assms
  by (auto simp: not_stisla_learn_anchor_def within_cap_def Let_def bind_eq_Some_conv
           split: if_splits option.splits)

lemma init_endpoints_within_cap:
  assumes "init_endpoints mo arr n t = Some (Seeded t1)" "within_cap (Ptr t)"
  shows "within_cap (Ptr t1)"
proof -
  from init_endpoints_Seeded [OF assms(1)]
  have "workload_type t1 = workload_type t" "t1 = t \<or> tsize t1 = 2" by auto
  with assms(2) max_anchors_for_ge [of "workload_type t"] show ?thesis
    by (auto simp: within_cap_def)
qed

lemma search_within_cap:
  assumes "not_stisla_search mo ro arr_p n key table tol = Some (j, table')" "within_cap table"
  shows "within_cap table'"
proof (cases table)
  case NULL
  have "table' = NULL"
  proof (cases arr_p)
    case NULL
    with assms \<open>table = NULL\<close> show ?thesis by (simp add: not_stisla_search_def)
  next
    case arr: (Ptr arr)
    show ?thesis
    proof (cases "32 \<le> n")
      case False
      with assms arr \<open>table = NULL\<close> show ?thesis
        by (auto simp: not_stisla_search_def bind_eq_Some_conv split: if_splits)
    next
      case True
      from assms(1) [unfolded arr] True show ?thesis
        by (cases rule: search_large) (simp_all add: \<open>table = NULL\<close>)
    qed
  qed
  then show ?thesis by (simp add: within_cap_def)
next
  case (Ptr t)
  show ?thesis
  proof (cases arr_p)
    case NULL
    with assms show ?thesis by (simp add: not_stisla_search_def)
  next
    case arr: (Ptr arr)
    show ?thesis
    proof (cases "32 \<le> n")
      case False
      with assms arr show ?thesis
        by (auto simp: not_stisla_search_def bind_eq_Some_conv split: if_splits)
    next
      case True
      from assms(1) [unfolded arr] True show ?thesis
      proof (cases rule: search_large)
        case (nomem t0)
        with init_endpoints_NoMemory [of mo arr n t t0] Ptr assms(2) show ?thesis
          by (simp add: within_cap_def)
      next
        case (miss t1 pred lo hi)
        with init_endpoints_within_cap [of mo arr n t t1] Ptr assms(2) show ?thesis by simp
      next
        case (hit t1 pred lo hi t2)
        with init_endpoints_within_cap [of mo arr n t t1] Ptr assms(2)
        have "within_cap (Ptr t1)" by simp
        from learn_anchor_within_cap [OF hit(7) this] hit(8) show ?thesis
          by (cases t2) (simp_all add: within_cap_def)
      qed
    qed
  qed
qed

lemma batch_loop_within_cap:
  "batch_loop al arr_p n keys num_keys k results table tol found = Some (f, rs, table') \<Longrightarrow>
   within_cap table \<Longrightarrow> within_cap table'"
proof (induction al arr_p n keys num_keys k results table tol found
       rule: batch_loop.induct)
  case (1 al arr_p n keys num_keys k results table tol found)
  show ?case
  proof (cases "k < num_keys")
    case False
    with "1.prems" show ?thesis by (subst (asm) batch_loop.simps) simp
  next
    case True
    with "1.prems"(1) obtain key r table1 results' where
      key: "arr_read keys k = Some key"
      and s: "not_stisla_search (fst (al k)) (snd (al k)) arr_p n key table tol = Some (r, table1)"
      and rs: "(if k < length results then Some (results[k := r]) else None) = Some results'"
      and rest: "batch_loop al arr_p n keys num_keys (k + 1) results' table1 tol
               (if r \<noteq> NOT_STISLA_NOT_FOUND then found + 1 else found) = Some (f, rs, table')"
      by (subst (asm) batch_loop.simps) (auto simp: bind_eq_Some_conv)
    from search_within_cap [OF s "1.prems"(2)] have "within_cap table1" .
    from "1.IH" [OF True key _ _ rs rest this] s show ?thesis by simp
  qed
qed

lemma apply_op_within_cap:
  assumes "apply_op table x = Some table'" "within_cap table"
  shows "within_cap table'"
proof (cases x)
  case Reset
  with assms show ?thesis
    by (cases table) (auto simp: not_stisla_anchor_table_reset_def within_cap_def)
next
  case (InitForDsmil w)
  with assms show ?thesis
    by (cases table)
       (auto simp: not_stisla_init_for_dsmil_def not_stisla_anchor_table_reset_def within_cap_def)
next
  case (Search mo ro arr_p n key tol)
  with assms show ?thesis by (auto intro: search_within_cap)
next
  case (BatchSearch al arr_p n keys_p num_keys results_p tol)
  with assms obtain f rs where
    b: "not_stisla_batch_search al arr_p n keys_p num_keys results_p table tol = Some (f, rs, table')"
    by auto
  show ?thesis
  proof (cases "\<exists>arr keys results. arr_p = Ptr arr \<and> keys_p = Ptr keys \<and> results_p = Ptr results
                  \<and> num_keys \<noteq> 0")
    case True
    then obtain arr keys results where p: "arr_p = Ptr arr" "keys_p = Ptr keys"
      "results_p = Ptr results" "num_keys \<noteq> 0" by blast
    with b obtain rs' where
      "batch_loop al arr_p n keys num_keys 0 results table tol 0 = Some (f, rs', table')"
      by (auto simp: not_stisla_batch_search_def bind_eq_Some_conv)
    from batch_loop_within_cap [OF this assms(2)] show ?thesis .
  next
    case False
    with b have "table' = table"
      by (cases arr_p; cases keys_p; cases results_p)
         (auto simp: not_stisla_batch_search_def split: if_splits)
    with assms(2) show ?thesis by simp
  qed
qed

lemma run_ops_within_cap:
  "run_ops table ops = Some table' \<Longrightarrow> within_cap table \<Longrightarrow> within_cap table'"
proof (induction ops arbitrary: table)
  case Nil
  then show ?case by simp
next
  case (Cons x xs)
  from Cons.prems(1) obtain table1 where a: "apply_op table x = Some table1"
    and r: "run_ops table1 xs = Some table'" by (auto split: option.splits)
  from Cons.IH [OF r apply_op_within_cap [OF a Cons.prems(2)]] show ?case .
qed

lemma create_within_cap: "within_cap (not_stisla_anchor_table_create calloc_ok malloc_ok)"
  by (simp add: not_stisla_anchor_table_create_def within_cap_def)

text \<open>
  C6. Whatever sequence of resets, workload configurations, searches and batch searches is
  applied to a table from \<open>not_stisla_anchor_table_create\<close>, the anchor count is at most the
  maximum of the table's current workload type: 16 when not configured, 12 for telemetry,
  8 for ids, 20 for offsets, 16 for events.
\<close>

theorem anchor_count_within_cap:
  assumes "run_ops (not_stisla_anchor_table_create calloc_ok malloc_ok) ops = Some (Ptr t)"
  shows "tsize t \<le> max_anchors_for (workload_type t) \<and>
         max_anchors_for (- 1) = 16 \<and>
         max_anchors_for NOT_STISLA_WORKLOAD_TELEMETRY = 12 \<and>
         max_anchors_for NOT_STISLA_WORKLOAD_IDS = 8 \<and>
         max_anchors_for NOT_STISLA_WORKLOAD_OFFSETS = 20 \<and>
         max_anchors_for NOT_STISLA_WORKLOAD_EVENTS = 16"
proof -
  from run_ops_within_cap [OF assms create_within_cap]
  have "tsize t \<le> max_anchors_for (workload_type t)" by (simp add: within_cap_def)
  then show ?thesis
    by (simp add: max_anchors_for_def NOT_STISLA_MAX_ANCHORS_def
        NOT_STISLA_WORKLOAD_TELEMETRY_def NOT_STISLA_WORKLOAD_IDS_def
        NOT_STISLA_WORKLOAD_OFFSETS_def NOT_STISLA_WORKLOAD_EVENTS_def)
qed

lemmas ops_eval = not_stisla_anchor_table_reset_def not_stisla_init_for_dsmil_def

theorem anchor_count_within_cap_witness:
  "run_ops (not_stisla_anchor_table_create True True)
     [Search True True (Ptr forty_array) 40 5 8, InitForDsmil 1,
      BatchSearch (\<lambda>_. (True, True)) (Ptr forty_array) 40 (Ptr [7, - 5]) 2 (Ptr [0, 0]) 8] =
   Some (Ptr \<lparr>anchors = [Some \<lparr>anchor_v = 0, anchor_i = 0\<rparr>,
                          Some \<lparr>anchor_v = 39, anchor_i = 39\<rparr>,
                          None, None, None, None, None, None],
              capacity = 8, tsize = 2, searches_performed = 1, workload_type = 1\<rparr>) \<and>
   (2::nat) \<le> max_anchors_for 1 \<and> max_anchors_for 1 = 8"
proof -
  let ?cells = "[Some \<lparr>anchor_v = 0, anchor_i = 0\<rparr>, Some \<lparr>anchor_v = 39, anchor_i = 39\<rparr>,
                 None, None, None, None, None, None]"
  let ?T1 = "\<lparr>anchors = ?cells, capacity = 8, tsize = 2, searches_performed = 1,
              workload_type = - 1\<rparr>"
  let ?T2 = "\<lparr>anchors = ?cells, capacity = 8, tsize = 0, searches_performed = 0,
              workload_type = 1\<rparr>"
  let ?T3 = "\<lparr>anchors = ?cells, capacity = 8, tsize = 2, searches_performed = Suc 0,
              workload_type = 1\<rparr>"
  let ?ops = "[Search True True (Ptr forty_array) 40 5 8, InitForDsmil 1,
      BatchSearch (\<lambda>_. (True, True)) (Ptr forty_array) 40 (Ptr [7, - 5]) 2 (Ptr [0, 0]) 8]"
  have s1: "not_stisla_search True True (Ptr forty_array) 40 5
              (not_stisla_anchor_table_create True True) 8 = Some (5, Ptr ?T1)"
    by (simp add: forty_array_def search_eval local_search_loop.simps)
  have s2: "not_stisla_search True True (Ptr forty_array) 40 7 (Ptr ?T2) 8 = Some (7, Ptr ?T3)"
    by (simp add: forty_array_def search_eval local_search_loop.simps)
  have s3: "not_stisla_search True True (Ptr forty_array) 40 (- 5) (Ptr ?T3) 8 =
              Some (NOT_STISLA_NOT_FOUND, Ptr ?T3)"
    by (simp add: forty_array_def search_eval local_search_loop.simps)
  have b: "batch_loop (\<lambda>_. (True, True)) (Ptr forty_array) 40 [7, - 5] 2 0 [0, 0] (Ptr ?T2) 8 0 =
             Some (1, [7, NOT_STISLA_NOT_FOUND], Ptr ?T3)"
    apply (subst batch_loop.simps)
    apply (simp add: arr_read_def s2)
    apply (subst batch_loop.simps)
    apply (simp add: arr_read_def s3)
    apply (subst batch_loop.simps)
    apply (simp add: NOT_STISLA_NOT_FOUND_def SIZE_MAX_def)
    done
  have r: "run_ops (not_stisla_anchor_table_create True True) ?ops = Some (Ptr ?T3)"
    by (simp add: s1 ops_eval not_stisla_batch_search_def b)
  from anchor_count_within_cap [of True True ?ops ?T3, OF r]
  have "tsize ?T3 \<le> max_anchors_for (workload_type ?T3)"
    "max_anchors_for NOT_STISLA_WORKLOAD_IDS = 8" by simp_all
  then have "(2::nat) \<le> max_anchors_for 1" "max_anchors_for 1 = 8"
    by (simp_all add: NOT_STISLA_WORKLOAD_IDS_def)
  with r show ?thesis unfolding One_nat_def by blast
qed

lemma replicate_16_8: "replicate (16 - 8) x = [x, x, x, x, x, x, x, x]"
  by (simp add: numeral_eq_Suc)

lemmas learn_eval = search_eval local_search_loop.simps insert_pos_loop.simps
  anchor_lower_loop.simps memmove_anchors_def realloc_anchors_def NOT_STISLA_MAX_ANCHORS_def
  NOT_STISLA_WORKLOAD_TELEMETRY_def NOT_STISLA_WORKLOAD_IDS_def NOT_STISLA_WORKLOAD_OFFSETS_def
  NOT_STISLA_WORKLOAD_EVENTS_def

text \<open>
  The cap at work, on a table that holds eight anchors learned elsewhere: the search finds
  the key far from the prediction; configured for ids (maximum 8) the table keeps its eight
  anchors, not configured (maximum 16) it grows to nine after a \<open>realloc\<close>, and keeps its
  eight when the \<open>realloc\<close> fails.
\<close>

lemma learning_saturates_at_cap:
  "not_stisla_search True True (Ptr forty_array) 40 20
     (Ptr \<lparr>anchors = eight_anchors, capacity = 8, tsize = 8, searches_performed = 0,
           workload_type = NOT_STISLA_WORKLOAD_IDS\<rparr>) 2 =
   Some (20, Ptr \<lparr>anchors = eight_anchors, capacity = 8, tsize = 8, searches_performed = 1,
                   workload_type = NOT_STISLA_WORKLOAD_IDS\<rparr>)"
  by (simp add: forty_array_def eight_anchors_def learn_eval)

lemma learning_grows_below_cap:
  "not_stisla_search True True (Ptr forty_array) 40 20
     (Ptr \<lparr>anchors = eight_anchors, capacity = 8, tsize = 8, searches_performed = 0,
           workload_type = - 1\<rparr>) 2 =
   Some (20, Ptr \<lparr>anchors = Some \<lparr>anchor_v = 20, anchor_i = 20\<rparr> # eight_anchors @
                             [None, None, None, None, None, None, None],
                   capacity = 16, tsize = 9, searches_performed = 1, workload_type = - 1\<rparr>)"
  by (simp add: forty_array_def eight_anchors_def learn_eval Let_def replicate_16_8)

lemma learning_skipped_without_memory:
  "not_stisla_search True False (Ptr forty_array) 40 20
     (Ptr \<lparr>anchors = eight_anchors, capacity = 8, tsize = 8, searches_performed = 0,
           workload_type = - 1\<rparr>) 2 =
   Some (20, Ptr \<lparr>anchors = eight_anchors, capacity = 8, tsize = 8, searches_performed = 1,
                   workload_type = - 1\<rparr>)"
  by (simp add: forty_array_def eight_anchors_def learn_eval)

section \<open>Inserting an anchor keeps the order\<close>

lemma insert_pos_loop_spec:
  "insert_pos_loop t val p0 = Some pos \<Longrightarrow> p0 \<le> tsize t \<Longrightarrow>
     p0 \<le> pos \<and> pos \<le> tsize t \<and>
     (\<forall>k. p0 \<le> k \<and> k < pos \<longrightarrow>
          (\<exists>a. anchor_read t k = Some a \<and> sint (anchor_v a) < sint val)) \<and>
     (pos < tsize t \<longrightarrow> (\<exists>a. anchor_read t pos = Some a \<and> \<not> sint (anchor_v a) < sint val))"
proof (induction t val p0 rule: insert_pos_loop.induct)
  case (1 t val p0)
  show ?case
  proof (cases "p0 < tsize t")
    case False
    with "1.prems" show ?thesis by (subst (asm) insert_pos_loop.simps) auto
  next
    case True
    with "1.prems"(1) obtain a where a: "anchor_read t p0 = Some a"
      and r: "(if sint (anchor_v a) < sint val then insert_pos_loop t val (p0 + 1)
               else Some p0) = Some pos"
      by (subst (asm) insert_pos_loop.simps) (auto simp: bind_eq_Some_conv)
    show ?thesis
    proof (cases "sint (anchor_v a) < sint val")
      case False
      with r a True show ?thesis by auto
    next
      case lt: True
      with r have "insert_pos_loop t val (p0 + 1) = Some pos" by simp
      from "1.IH" [OF True a lt this] True
      have ih: "p0 + 1 \<le> pos" "pos \<le> tsize t"
        "\<forall>k. p0 + 1 \<le> k \<and> k < pos \<longrightarrow>
            (\<exists>a. anchor_read t k = Some a \<and> sint (anchor_v a) < sint val)"
        "pos < tsize t \<longrightarrow> (\<exists>a. anchor_read t pos = Some a \<and> \<not> sint (anchor_v a) < sint val)"
        by simp_all
      have "\<exists>a. anchor_read t k = Some a \<and> sint (anchor_v a) < sint val"
        if "p0 \<le> k" "k < pos" for k
      proof (cases "k = p0")
        case True
        with a lt show ?thesis by simp
      next
        case False
        with that ih(3) show ?thesis by simp
      qed
      with ih show ?thesis by simp
    qed
  qed
qed

lemma shift_insert_take:
  assumes "pos \<le> sz" "sz < length buf"
    and "buf1 = (if pos < sz
                 then take (pos + 1) buf @ take (sz - pos) (drop pos buf) @
                      drop (pos + 1 + (sz - pos)) buf
                 else buf)"
  shows "length buf1 = length buf \<and>
         take (sz + 1) (buf1[pos := x]) = take pos buf @ [x] @ take (sz - pos) (drop pos buf)"
proof -
  have len: "length buf1 = length buf"
  proof (cases "pos < sz")
    case True
    with assms show ?thesis by (auto simp: min_def)
  next
    case False
    with assms show ?thesis by simp
  qed
  have low: "buf1 ! k = buf ! k" if "k < pos" for k
    using that assms by (simp add: nth_append)
  have high: "buf1 ! (pos + 1 + d) = buf ! (pos + d)" if "d < sz - pos" for d
  proof -
    define A where "A = take (pos + 1) buf"
    define B where "B = take (sz - pos) (drop pos buf)"
    from that have ps: "pos < sz" by simp
    with assms(3) have b: "buf1 = A @ (B @ drop (pos + 1 + (sz - pos)) buf)"
      by (simp add: A_def B_def)
    have lA: "length A = pos + 1" using ps assms(2) by (simp add: A_def)
    have lB: "length B = sz - pos" using assms(1,2) by (simp add: B_def)
    have "buf1 ! (length A + d) = (B @ drop (pos + 1 + (sz - pos)) buf) ! d"
      unfolding b by (rule nth_append_length_plus)
    also have "\<dots> = B ! d" using that lB by (simp add: nth_append)
    also have "\<dots> = buf ! (pos + d)" using that assms(2) by (simp add: B_def)
    finally show ?thesis by (simp add: lA)
  qed
  have l1: "length (take pos buf) = pos" using assms(1,2) by simp
  have l2: "length (take (sz - pos) (drop pos buf)) = sz - pos" using assms(1,2) by simp
  have l3: "length (take (sz + 1) (buf1[pos := x])) = sz + 1" using assms(2) len by simp
  have "take (sz + 1) (buf1[pos := x]) = take pos buf @ [x] @ take (sz - pos) (drop pos buf)"
  proof (rule nth_equalityI)
    show "length (take (sz + 1) (buf1[pos := x])) =
          length (take pos buf @ [x] @ take (sz - pos) (drop pos buf))"
      unfolding l3 length_append l1 l2 using assms(1) by simp
  next
    fix k assume "k < length (take (sz + 1) (buf1[pos := x]))"
    then have k: "k \<le> sz" unfolding l3 by simp
    then have tk: "take (sz + 1) (buf1[pos := x]) ! k = (buf1[pos := x]) ! k" by simp
    have pl: "pos < length buf1" using assms(1,2) len by simp
    consider "k < pos" | "k = pos" | "pos < k" by linarith
    then show "take (sz + 1) (buf1[pos := x]) ! k =
               (take pos buf @ [x] @ take (sz - pos) (drop pos buf)) ! k"
    proof cases
      case 1
      then have "(take pos buf @ [x] @ take (sz - pos) (drop pos buf)) ! k = buf ! k"
        using l1 by (simp add: nth_append)
      with 1 tk low [OF 1] show ?thesis by simp
    next
      case 2
      then have "(take pos buf @ [x] @ take (sz - pos) (drop pos buf)) ! k = x"
        using l1 by (simp add: nth_append)
      with 2 tk pl show ?thesis by simp
    next
      case 3
      define d where "d = k - (pos + 1)"
      from 3 have d: "k = length (take pos buf) + (1 + d)" unfolding l1 by (simp add: d_def)
      from 3 have d': "k = pos + 1 + d" by (simp add: d_def)
      with k have dd: "d < sz - pos" by simp
      have "(take pos buf @ [x] @ take (sz - pos) (drop pos buf)) ! k =
            ([x] @ take (sz - pos) (drop pos buf)) ! (1 + d)"
        unfolding d by (rule nth_append_length_plus)
      also have "\<dots> = take (sz - pos) (drop pos buf) ! d" by simp
      also have "\<dots> = buf ! (pos + d)" using dd assms(2) by simp
      finally have rhs: "(take pos buf @ [x] @ take (sz - pos) (drop pos buf)) ! k =
            buf ! (pos + d)" .
      have "(buf1[pos := x]) ! k = buf1 ! k" using 3 by simp
      with tk rhs high [OF dd] d' show ?thesis by simp
    qed
  qed
  with len show ?thesis by simp
qed

lemma realloc_anchors_take:
  assumes "sz \<le> length buf" "sz < length (realloc_anchors buf c)"
  shows "take sz (realloc_anchors buf c) = take sz buf"
proof -
  define cells where "cells = ((c * 16) mod 2 ^ 64) div 16"
  have r: "realloc_anchors buf c = take cells buf @ replicate (cells - length buf) None"
    by (simp add: realloc_anchors_def cells_def Let_def)
  have "length (realloc_anchors buf c) = cells" unfolding r by (simp add: min_def)
  with assms have "sz \<le> cells" by simp
  with assms(1) show ?thesis unfolding r by (simp add: min_def)
qed


lemma learn_anchor_cases:
  assumes "not_stisla_learn_anchor ro (Ptr t) x j pred tol = Some r"
  obtains (same) "r = Ptr t"
  | (insert) t1 pos buf1 buf2 where
      "t1 = t \<or> (\<exists>c. t1 = t\<lparr>anchors := realloc_anchors (anchors t) c, capacity := c\<rparr>)"
      "tsize t < max_anchors_for (workload_type t)"
      "insert_pos_loop t1 x 0 = Some pos"
      "(if pos < tsize t1
        then memmove_anchors (anchors t1) (pos + 1) pos (tsize t1 - pos)
        else Some (anchors t1)) = Some buf1"
      "anchor_write buf1 pos \<lparr>anchor_v = x, anchor_i = j\<rparr> = Some buf2"
      "r = Ptr (t1\<lparr>anchors := buf2, tsize := tsize t1 + 1\<rparr>)"
proof -
  define grown where "grown =
     (if tsize t \<ge> capacity t then
        (let new_cap = (if capacity t \<noteq> 0 then (capacity t * 2) mod 2 ^ 64 else 8) in
         if ro then Some (t\<lparr>anchors := realloc_anchors (anchors t) new_cap,
                             capacity := new_cap\<rparr>)
         else None)
      else Some t)"
  define ins where "ins = (\<lambda>t1.
     do { pos \<leftarrow> insert_pos_loop t1 x 0;
          buf1 \<leftarrow> (if pos < tsize t1
                   then memmove_anchors (anchors t1) (pos + 1) pos (tsize t1 - pos)
                   else Some (anchors t1));
          buf2 \<leftarrow> anchor_write buf1 pos \<lparr>anchor_v = x, anchor_i = j\<rparr>;
          Some (Ptr (t1\<lparr>anchors := buf2, tsize := tsize t1 + 1\<rparr>)) })"
  have unf: "not_stisla_learn_anchor ro (Ptr t) x j pred tol =
     (if (if pred > j then pred - j else j - pred) \<le> tol then Some (Ptr t)
      else if tsize t \<ge> max_anchors_for (workload_type t) then Some (Ptr t)
      else (case grown of None \<Rightarrow> Some (Ptr t) | Some t1 \<Rightarrow> ins t1))"
    unfolding not_stisla_learn_anchor_def grown_def ins_def Let_def by simp
  show thesis
  proof (cases "r = Ptr t")
    case True
    then show thesis by (rule same)
  next
    case False
    with assms unf obtain t1 where lt: "tsize t < max_anchors_for (workload_type t)"
      and g: "grown = Some t1" and i: "ins t1 = Some r"
      by (auto split: if_splits option.splits)
    from g have t1: "t1 = t \<or> (\<exists>c. t1 = t\<lparr>anchors := realloc_anchors (anchors t) c, capacity := c\<rparr>)"
      by (auto simp: grown_def Let_def split: if_splits)
    from i obtain pos buf1 buf2 where
      "insert_pos_loop t1 x 0 = Some pos"
      "(if pos < tsize t1
        then memmove_anchors (anchors t1) (pos + 1) pos (tsize t1 - pos)
        else Some (anchors t1)) = Some buf1"
      "anchor_write buf1 pos \<lparr>anchor_v = x, anchor_i = j\<rparr> = Some buf2"
      "r = Ptr (t1\<lparr>anchors := buf2, tsize := tsize t1 + 1\<rparr>)"
      unfolding ins_def by (auto simp: bind_eq_Some_conv)
    with t1 lt show thesis by (rule insert)
  qed
qed

lemma anchors_live_read:
  "anchors_live t \<Longrightarrow> k < tsize t \<Longrightarrow>
     anchor_read t k = Some a \<Longrightarrow> anchor_values t ! k = sint (anchor_v a)"
  by (simp add: anchors_live_def anchor_values_def anchor_read_def split: if_splits)

lemma learn_anchor_sorted:
  assumes "not_stisla_learn_anchor ro (Ptr t) x j pred tol = Some (Ptr t')"
    and "anchors_live t" "sorted (anchor_values t)"
  shows "anchors_live t' \<and> sorted (anchor_values t')"
  using assms(1)
proof (cases rule: learn_anchor_cases)
  case same
  with assms show ?thesis by simp
next
  case (insert t1 pos buf1 buf2)
  define sz where "sz = tsize t"
  define B where "B = anchors t1"
  define new where "new = \<lparr>anchor_v = x, anchor_i = j\<rparr>"
  define f where "f = (\<lambda>c :: anchor option. sint (anchor_v (the c)))"
  have sz1: "tsize t1 = sz" using insert(1) by (auto simp: sz_def)
  from insert_pos_loop_spec [OF insert(3)] sz1
  have pos: "pos \<le> sz"
    and below: "\<And>k. k < pos \<Longrightarrow> \<exists>a. anchor_read t1 k = Some a \<and> sint (anchor_v a) < sint x"
    and at: "pos < sz \<Longrightarrow> \<exists>a. anchor_read t1 pos = Some a \<and> \<not> sint (anchor_v a) < sint x"
    by auto
  from insert(5) have w: "pos < length buf1" "buf2 = buf1[pos := Some new]"
    by (auto simp: anchor_write_def new_def split: if_splits)
  have b1: "buf1 = (if pos < sz
                 then take (pos + 1) B @ take (sz - pos) (drop pos B) @
                      drop (pos + 1 + (sz - pos)) B
                 else B)"
    using insert(4) sz1 by (auto simp: memmove_anchors_def B_def split: if_splits)
  have szB: "sz < length B"
  proof (cases "pos < sz")
    case True
    with insert(4) sz1 show ?thesis by (auto simp: memmove_anchors_def B_def split: if_splits)
  next
    case False
    with pos b1 w(1) show ?thesis by simp
  qed
  from shift_insert_take [OF pos szB b1, of "Some new"] w(2)
  have len: "length buf2 = length B"
    and tk: "take (sz + 1) buf2 = take pos B @ [Some new] @ take (sz - pos) (drop pos B)"
    by simp_all
  have live_sz: "sz \<le> length (anchors t)" using assms(2) by (simp add: anchors_live_def sz_def)
  have tB: "take sz B = take sz (anchors t)"
  proof -
    from insert(1) show ?thesis
    proof
      assume "t1 = t"
      then show ?thesis by (simp add: B_def)
    next
      assume "\<exists>c. t1 = t\<lparr>anchors := realloc_anchors (anchors t) c, capacity := c\<rparr>"
      then obtain c where "B = realloc_anchors (anchors t) c" by (auto simp: B_def)
      with realloc_anchors_take [OF live_sz, of c] szB show ?thesis by simp
    qed
  qed
  have parts: "take pos B = take pos (take sz B)"
    "take (sz - pos) (drop pos B) = drop pos (take sz B)"
    using pos by (simp_all add: min_def drop_take)
  have none: "list_all (\<lambda>c. c \<noteq> None) (take sz B)"
    using assms(2) unfolding tB by (simp add: anchors_live_def sz_def)
  have t': "anchors t' = buf2" "tsize t' = sz + 1" using insert(6) sz1 by simp_all
  have live': "anchors_live t'"
  proof -
    have "set (take pos (take sz B)) \<subseteq> set (take sz B)"
      "set (drop pos (take sz B)) \<subseteq> set (take sz B)"
      by (rule set_take_subset, rule set_drop_subset)
    with none have "list_all (\<lambda>c. c \<noteq> None) (take pos (take sz B))"
      "list_all (\<lambda>c. c \<noteq> None) (drop pos (take sz B))"
      unfolding list_all_iff by blast+
    moreover have "take (tsize t') (anchors t') =
        take pos (take sz B) @ [Some new] @ drop pos (take sz B)"
      unfolding t' tk parts ..
    moreover have "tsize t' \<le> length (anchors t')" unfolding t' len using szB by simp
    ultimately show ?thesis unfolding anchors_live_def by simp
  qed
  define vs where "vs = anchor_values t"
  have vs: "vs = map f (take sz B)" unfolding tB by (simp add: vs_def anchor_values_def sz_def f_def)
  have lvs: "length vs = sz" using szB by (simp add: vs)
  have "take (tsize t') (anchors t') =
        take pos (take sz B) @ [Some new] @ drop pos (take sz B)"
    unfolding t' tk parts ..
  then have "anchor_values t' = map f (take pos (take sz B) @ [Some new] @ drop pos (take sz B))"
    by (simp add: anchor_values_def f_def)
  also have "\<dots> = take pos vs @ [f (Some new)] @ drop pos vs"
    unfolding vs take_map drop_map by simp
  finally have vals: "anchor_values t' = take pos vs @ [sint x] @ drop pos vs"
    by (simp add: f_def new_def)
  have rd: "sint (anchor_v a) = vs ! k" if "k < sz" "anchor_read t1 k = Some a" for k a
  proof -
    from that szB have "B ! k = Some a" by (simp add: anchor_read_def B_def split: if_splits)
    with that(1) szB show ?thesis by (simp add: vs f_def)
  qed
  have lo: "y \<le> sint x" if "y \<in> set (take pos vs)" for y
  proof -
    from that obtain k where "k < length (take pos vs)" "y = take pos vs ! k"
      unfolding in_set_conv_nth by blast
    then have k: "k < pos" "y = vs ! k"
      using lvs pos by simp_all
    with below [of k] rd [of k] pos show ?thesis by auto
  qed
  have hi: "sint x \<le> y" if "y \<in> set (drop pos vs)" for y
  proof -
    from that obtain d where "d < length (drop pos vs)" "y = drop pos vs ! d"
      unfolding in_set_conv_nth by blast
    then have d: "pos + d < sz" "y = vs ! (pos + d)"
      using lvs pos by simp_all
    then have ps: "pos < sz" by simp
    from at [OF ps] rd [OF ps] have "sint x \<le> vs ! pos" by auto
    also have "\<dots> \<le> vs ! (pos + d)"
      using assms(3) d(1) lvs by (intro sorted_nth_mono) (simp_all add: vs_def)
    finally show ?thesis using d(2) by simp
  qed
  have "sorted (take pos vs)" "sorted (drop pos vs)"
    using assms(3) by (simp_all add: vs_def sorted_wrt_take sorted_wrt_drop)
  moreover have "a \<le> b" if "a \<in> set (take pos vs)" "b \<in> set (drop pos vs)" for a b
    using lo [OF that(1)] hi [OF that(2)] by simp
  ultimately have "sorted (take pos vs @ [sint x] @ drop pos vs)"
    using lo hi by (simp add: sorted_append)
  with live' vals show ?thesis by simp
qed

section \<open>The anchors stay sorted\<close>

lemma take_2_update:
  "2 \<le> length buf \<Longrightarrow> take 2 (buf[0 := a, 1 := b]) = [a, b]"
  by (cases buf; cases "tl buf") (auto simp: numeral_2_eq_2)

lemma init_endpoints_sorted:
  assumes "init_endpoints mo arr n t = Some (Seeded t1)" "32 \<le> n" "sorted_array arr n"
    and "sorted_table (Ptr t)"
  shows "sorted_table (Ptr t1)"
proof -
  from init_endpoints_Seeded [OF assms(1)]
  consider "t1 = t"
    | buf x0 xn where "tsize t1 = 2" "2 \<le> length buf"
        "arr_read arr 0 = Some x0" "arr_read arr (n - 1) = Some xn"
        "anchors t1 = buf[0 := Some \<lparr>anchor_v = x0, anchor_i = 0\<rparr>,
                          1 := Some \<lparr>anchor_v = xn, anchor_i = n - 1\<rparr>]"
    by blast
  then show ?thesis
  proof cases
    case 1
    with assms(4) show ?thesis by simp
  next
    case 2
    have tk: "take (tsize t1) (anchors t1) =
        [Some \<lparr>anchor_v = x0, anchor_i = 0\<rparr>, Some \<lparr>anchor_v = xn, anchor_i = n - 1\<rparr>]"
      unfolding 2(1) 2(5) using 2(2) by (rule take_2_update)
    from 2(3,4) have x: "x0 = arr ! 0" "xn = arr ! (n - 1)"
      by (auto simp: arr_read_def split: if_splits)
    have "map sint (take n arr) ! 0 \<le> map sint (take n arr) ! (n - 1)"
      using assms(2,3) by (intro sorted_nth_mono) (simp_all add: sorted_array_def)
    then have "sint x0 \<le> sint xn" using assms(2,3) x by (simp add: sorted_array_def)
    moreover have "tsize t1 \<le> length (anchors t1)" using 2(1,2,5) by simp
    ultimately show ?thesis
      by (simp add: sorted_table_def anchors_live_def anchor_values_def tk)
  qed
qed

lemma sorted_table_counter:
  "sorted_table (Ptr t) \<Longrightarrow> sorted_table (Ptr (t\<lparr>searches_performed := c\<rparr>))"
  by (simp add: sorted_table_def anchors_live_def anchor_values_def)

lemma search_sorted:
  assumes "not_stisla_search mo ro arr_p n key table tol = Some (j, table')" "sorted_table table"
    and "\<And>arr. arr_p = Ptr arr \<Longrightarrow> sorted_array arr n"
  shows "sorted_table table'"
proof (cases arr_p)
  case NULL
  with assms show ?thesis by (simp add: not_stisla_search_def)
next
  case arr: (Ptr arr)
  show ?thesis
  proof (cases "32 \<le> n")
    case False
    with assms arr show ?thesis
      by (auto simp: not_stisla_search_def bind_eq_Some_conv split: if_splits)
  next
    case True
    show ?thesis
    proof (cases table)
      case NULL
      from assms(1) [unfolded arr] True have "table' = NULL"
        by (cases rule: search_large) (simp_all add: NULL)
      then show ?thesis by (simp add: sorted_table_def)
    next
      case (Ptr t)
      from assms(1) [unfolded arr] True show ?thesis
      proof (cases rule: search_large)
        case (nomem t0)
        with init_endpoints_NoMemory [of mo arr n t t0] Ptr show ?thesis
          by (simp add: sorted_table_def anchors_live_def anchor_values_def)
      next
        case (miss t1 pred lo hi)
        with init_endpoints_sorted [of mo arr n t t1] True assms(2,3) arr Ptr
        show ?thesis by simp
      next
        case (hit t1 pred lo hi t2)
        with init_endpoints_sorted [of mo arr n t t1] True assms(2,3) arr Ptr
        have s1: "sorted_table (Ptr t1)" by simp
        from learn_anchor_frame [OF hit(7)] obtain t3 where t3: "t2 = Ptr t3" by blast
        from learn_anchor_sorted [OF hit(7) [unfolded t3]] s1
        have "sorted_table (Ptr t3)" by (simp add: sorted_table_def)
        with hit(8) t3 show ?thesis by (simp add: sorted_table_counter)
      qed
    qed
  qed
qed

lemma batch_loop_sorted:
  "batch_loop al arr_p n keys num_keys k results table tol found = Some (f, rs, table') \<Longrightarrow>
   sorted_table table \<Longrightarrow> (\<And>arr. arr_p = Ptr arr \<Longrightarrow> sorted_array arr n) \<Longrightarrow>
   sorted_table table'"
proof (induction al arr_p n keys num_keys k results table tol found
       rule: batch_loop.induct)
  case (1 al arr_p n keys num_keys k results table tol found)
  show ?case
  proof (cases "k < num_keys")
    case False
    with "1.prems" show ?thesis by (subst (asm) batch_loop.simps) simp
  next
    case True
    with "1.prems"(1) obtain key r table1 results' where
      key: "arr_read keys k = Some key"
      and s: "not_stisla_search (fst (al k)) (snd (al k)) arr_p n key table tol = Some (r, table1)"
      and rs: "(if k < length results then Some (results[k := r]) else None) = Some results'"
      and rest: "batch_loop al arr_p n keys num_keys (k + 1) results' table1 tol
               (if r \<noteq> NOT_STISLA_NOT_FOUND then found + 1 else found) = Some (f, rs, table')"
      by (subst (asm) batch_loop.simps) (auto simp: bind_eq_Some_conv)
    from search_sorted [OF s "1.prems"(2,3)] have "sorted_table table1" .
    from "1.IH" [OF True key _ _ rs rest this "1.prems"(3)] s show ?thesis by simp
  qed
qed

lemma apply_op_sorted:
  assumes "apply_op table x = Some table'" "sorted_table table" "op_sorted x"
  shows "sorted_table table'"
proof (cases x)
  case Reset
  with assms show ?thesis
    by (cases table)
       (auto simp: not_stisla_anchor_table_reset_def sorted_table_def anchors_live_def
          anchor_values_def)
next
  case (InitForDsmil w)
  with assms show ?thesis
    by (cases table)
       (auto simp: not_stisla_init_for_dsmil_def not_stisla_anchor_table_reset_def
          sorted_table_def anchors_live_def anchor_values_def)
next
  case (Search mo ro arr_p n key tol)
  with assms obtain j where
    s: "not_stisla_search mo ro arr_p n key table tol = Some (j, table')" by auto
  have srt: "sorted_array arr n" if "arr_p = Ptr arr" for arr
    using assms(3) Search that by simp
  from search_sorted [OF s assms(2) srt] show ?thesis by simp
next
  case (BatchSearch al arr_p n keys_p num_keys results_p tol)
  with assms obtain f rs where
    b: "not_stisla_batch_search al arr_p n keys_p num_keys results_p table tol = Some (f, rs, table')"
    by auto
  have srt: "sorted_array arr n" if "arr_p = Ptr arr" for arr
    using assms(3) BatchSearch that by simp
  show ?thesis
  proof (cases "\<exists>arr keys results. arr_p = Ptr arr \<and> keys_p = Ptr keys \<and> results_p = Ptr results
                  \<and> num_keys \<noteq> 0")
    case True
    then obtain arr keys results where p: "arr_p = Ptr arr" "keys_p = Ptr keys"
      "results_p = Ptr results" "num_keys \<noteq> 0" by blast
    with b obtain rs' where
      "batch_loop al arr_p n keys num_keys 0 results table tol 0 = Some (f, rs', table')"
      by (auto simp: not_stisla_batch_search_def bind_eq_Some_conv)
    from batch_loop_sorted [OF this assms(2) srt] show ?thesis by simp
  next
    case False
    with b have "table' = table"
      by (cases arr_p; cases keys_p; cases results_p)
         (auto simp: not_stisla_batch_search_def split: if_splits)
    with assms(2) show ?thesis by simp
  qed
qed

lemma run_ops_sorted:
  "run_ops table ops = Some table' \<Longrightarrow> sorted_table table \<Longrightarrow> list_all op_sorted ops \<Longrightarrow>
   sorted_table table'"
proof (induction ops arbitrary: table)
  case Nil
  then show ?case by simp
next
  case (Cons x xs)
  from Cons.prems(1) obtain table1 where a: "apply_op table x = Some table1"
    and r: "run_ops table1 xs = Some table'" by (auto split: option.splits)
  from Cons.prems(3) have "op_sorted x" "list_all op_sorted xs" by simp_all
  from Cons.IH [OF r apply_op_sorted [OF a Cons.prems(2) this(1)] this(2)] show ?case .
qed

lemma create_sorted: "sorted_table (not_stisla_anchor_table_create calloc_ok malloc_ok)"
  by (simp add: not_stisla_anchor_table_create_def sorted_table_def anchors_live_def
      anchor_values_def)

text \<open>
  C5 (amended). Starting from a table whose anchors are live and sorted ascending by value
  (a new table is one), every sequence of resets, workload configurations, searches and
  batch searches on sorted arrays leaves the anchors live and sorted ascending by value.
  The order is not strict: equal values can stand next to each other.
\<close>

theorem anchors_stay_sorted:
  assumes "sorted_table table" "run_ops table ops = Some (Ptr t)" "list_all op_sorted ops"
  shows "anchors_live t \<and> sorted (anchor_values t)"
  using run_ops_sorted [OF assms(2) assms(1) assms(3)] by (simp add: sorted_table_def)

theorem anchors_stay_sorted_witness:
  "sorted_table (Ptr \<lparr>anchors = [Some \<lparr>anchor_v = 100, anchor_i = 10\<rparr>,
                          Some \<lparr>anchor_v = 200, anchor_i = 39\<rparr>,
                          None, None, None, None, None, None],
              capacity = 8, tsize = 2, searches_performed = 0, workload_type = - 1\<rparr>) \<and>
   run_ops (Ptr \<lparr>anchors = [Some \<lparr>anchor_v = 100, anchor_i = 10\<rparr>,
                          Some \<lparr>anchor_v = 200, anchor_i = 39\<rparr>,
                          None, None, None, None, None, None],
              capacity = 8, tsize = 2, searches_performed = 0, workload_type = - 1\<rparr>)
     [Search True True (Ptr forty_array) 40 20 2] =
   Some (Ptr \<lparr>anchors = [Some \<lparr>anchor_v = 20, anchor_i = 20\<rparr>,
                          Some \<lparr>anchor_v = 100, anchor_i = 10\<rparr>,
                          Some \<lparr>anchor_v = 200, anchor_i = 39\<rparr>,
                          None, None, None, None, None],
              capacity = 8, tsize = 3, searches_performed = 1, workload_type = - 1\<rparr>) \<and>
   list_all op_sorted [Search True True (Ptr forty_array) 40 20 2] \<and>
   sorted (anchor_values \<lparr>anchors = [Some \<lparr>anchor_v = 20, anchor_i = 20\<rparr>,
                          Some \<lparr>anchor_v = 100, anchor_i = 10\<rparr>,
                          Some \<lparr>anchor_v = 200, anchor_i = 39\<rparr>,
                          None, None, None, None, None],
              capacity = 8, tsize = 3, searches_performed = 1, workload_type = - 1\<rparr>)"
proof -
  let ?T0 = "\<lparr>anchors = [Some \<lparr>anchor_v = 100, anchor_i = 10\<rparr>,
                          Some \<lparr>anchor_v = 200, anchor_i = 39\<rparr>,
                          None, None, None, None, None, None],
              capacity = 8, tsize = 2, searches_performed = 0, workload_type = - 1\<rparr>"
  let ?T1 = "\<lparr>anchors = [Some \<lparr>anchor_v = 20, anchor_i = 20\<rparr>,
                          Some \<lparr>anchor_v = 100, anchor_i = 10\<rparr>,
                          Some \<lparr>anchor_v = 200, anchor_i = 39\<rparr>,
                          None, None, None, None, None],
              capacity = 8, tsize = 3, searches_performed = 1, workload_type = - 1\<rparr>"
  let ?ops = "[Search True True (Ptr forty_array) 40 20 2]"
  have a: "sorted_table (Ptr ?T0)"
    by (simp add: sorted_table_def anchors_live_def anchor_values_def)
  have r: "run_ops (Ptr ?T0) ?ops = Some (Ptr ?T1)"
    by (simp add: forty_array_def search_eval local_search_loop.simps insert_pos_loop.simps
          memmove_anchors_def NOT_STISLA_MAX_ANCHORS_def NOT_STISLA_WORKLOAD_TELEMETRY_def
          NOT_STISLA_WORKLOAD_IDS_def NOT_STISLA_WORKLOAD_OFFSETS_def
          NOT_STISLA_WORKLOAD_EVENTS_def)
  have s: "list_all op_sorted ?ops" by (simp add: forty_array_def sorted_array_def)
  from anchors_stay_sorted [OF a r s] a r s show ?thesis by blast
qed

text \<open>
  C5 as stated fails: the first search on a sorted array whose first and last elements are
  equal seeds two anchors of the same value.
\<close>

theorem anchors_not_strictly_sorted:
  "sorted_array constant_array 32 \<and>
   run_ops (not_stisla_anchor_table_create True True)
     [Search True True (Ptr constant_array) 32 3 8] =
   Some (Ptr \<lparr>anchors = [Some \<lparr>anchor_v = 7, anchor_i = 0\<rparr>,
                          Some \<lparr>anchor_v = 7, anchor_i = 31\<rparr>,
                          None, None, None, None, None, None],
              capacity = 8, tsize = 2, searches_performed = 0, workload_type = - 1\<rparr>) \<and>
   anchor_values \<lparr>anchors = [Some \<lparr>anchor_v = 7, anchor_i = 0\<rparr>,
                          Some \<lparr>anchor_v = 7, anchor_i = 31\<rparr>,
                          None, None, None, None, None, None],
              capacity = 8, tsize = 2, searches_performed = 0, workload_type = - 1\<rparr> = [7, 7] \<and>
   \<not> sorted_wrt (<) [7, 7 :: int]"
  by (simp add: constant_array_def sorted_array_def search_eval anchor_values_def)

section \<open>Repeating a search\<close>

lemma interpolate_upper:
  assumes "not_stisla_interpolate l_val r_val l_idx r_idx key = Some p"
    "l_idx \<le> r_idx" "r_idx < 2 ^ 63"
  shows "unat p \<le> r_idx"
  using interpolate_bounds_aux [OF assms(2,3), of l_val r_val key] assms(1) by auto

lemma seeded_only_two:
  assumes "seeded_only (Ptr t)" "tsize t = 2"
  obtains a0 a1 where "anchor_read t 0 = Some a0" "anchor_read t 1 = Some a1"
    "anchor_read t 2 = None" "anchor_i a0 = 0" "anchor_i a1 < 2 ^ 63"
proof -
  from assms obtain a0 a1 where a: "anchors t ! 0 = Some a0" "anchors t ! 1 = Some a1"
    "anchor_i a0 = 0" "anchor_i a1 < 2 ^ 63"
    by (auto simp: seeded_only_def split: option.splits)
  from assms(1) have len: "length (anchors t) = 8"
    and la: "list_all (\<lambda>c. c = None) (drop 2 (anchors t))" by (simp_all add: seeded_only_def)
  have "0 < length (drop 2 (anchors t))" using len by simp
  moreover from la have "\<forall>n < length (drop 2 (anchors t)). drop 2 (anchors t) ! n = None"
    unfolding list_all_length .
  ultimately have "drop 2 (anchors t) ! 0 = None" by blast
  moreover have "drop 2 (anchors t) ! 0 = anchors t ! (2 + 0)"
    using len by (intro nth_drop) simp
  ultimately have "anchors t ! 2 = None" by simp
  with a len show thesis by (intro that [of a0 a1]) (simp_all add: anchor_read_def)
qed

lemma anchor_lower_two:
  assumes "tsize t = 2"
  shows "not_stisla_anchor_lower t x =
     do { a0 \<leftarrow> anchor_read t 0;
          if sint (anchor_v a0) \<le> sint x then
            do { a1 \<leftarrow> anchor_read t 1;
                 Some (if sint (anchor_v a1) \<le> sint x then 1 else 0) }
          else Some 0 }"
  using assms by (simp add: not_stisla_anchor_lower_def cong: Option.bind_cong if_cong)

lemma search_window_two:
  assumes "seeded_only (Ptr t)" "tsize t = 2" "search_window t key tol = Some (pred, lo, hi)"
  obtains r_i where "r_i < 2 ^ 63" "pred \<le> r_i" "(lo, hi) = search_bounds pred tol 0 r_i"
proof -
  from assms(1,2) obtain a0 a1 where a: "anchor_read t 0 = Some a0" "anchor_read t 1 = Some a1"
    "anchor_read t 2 = None" "anchor_i a0 = 0" "anchor_i a1 < 2 ^ 63"
    by (rule seeded_only_two)
  from assms(3) obtain a_idx l r p where w:
    "not_stisla_anchor_lower t key = Some a_idx"
    "anchor_read t a_idx = Some l" "anchor_read t (a_idx + 1) = Some r"
    "not_stisla_interpolate (anchor_v l) (anchor_v r) (anchor_i l) (anchor_i r) key = Some p"
    "pred = unat p" "(lo, hi) = search_bounds pred tol (anchor_i l) (anchor_i r)"
    by (rule search_window_Some)
  from w(1) a(1,2) have "a_idx = 0 \<or> a_idx = 1"
    by (auto simp: anchor_lower_two [OF assms(2)] split: if_splits)
  with w(3) a(3) have "a_idx = 0" by (auto simp: numeral_2_eq_2)
  with w(2,3) a have l: "l = a0" and r: "r = a1" by simp_all
  from interpolate_upper [OF w(4)] l r a(4,5) have "unat p \<le> anchor_i a1" by simp
  with w(5,6) l r a(4,5) show thesis by (intro that [of "anchor_i a1"]) simp_all
qed

lemma search_bounds_within_tolerance:
  assumes "(lo, hi) = search_bounds pred tol 0 r_i" "pred \<le> r_i" "r_i < 2 ^ 63"
    "lo \<le> j" "j \<le> hi"
  shows "(if pred > j then pred - j else j - pred) \<le> tol"
proof -
  define lo1 where "lo1 = (if pred > tol then pred - tol else 0)"
  define hi0 where "hi0 = size_add pred tol"
  define hi1 where "hi1 = (if hi0 < r_i then hi0 else r_i)"
  have sb: "search_bounds pred tol 0 r_i = (if lo1 > hi1 then (0, r_i) else (lo1, hi1))"
    by (simp add: search_bounds_def Let_def lo1_def hi0_def hi1_def)
  have hi0_le: "hi0 \<le> pred + tol" by (simp add: hi0_def size_add_def)
  have nofb: "lo1 \<le> hi1"
  proof (cases "pred > tol")
    case False
    then show ?thesis by (simp add: lo1_def)
  next
    case True
    with assms(2,3) have "pred + tol < 2 ^ 64" by simp
    then have "hi0 = pred + tol" by (simp add: hi0_def size_add_def)
    with assms(2) have "pred \<le> hi1" by (simp add: hi1_def)
    then show ?thesis by (auto simp: lo1_def)
  qed
  with sb assms(1) have lh: "lo = lo1" "hi = hi1" by simp_all
  have "hi1 \<le> hi0" by (simp add: hi1_def)
  with assms(5) hi0_le lh have up: "j \<le> pred + tol" by simp
  from assms(4) lh have "pred - tol \<le> j \<or> pred \<le> tol" by (auto simp: lo1_def split: if_splits)
  with up show ?thesis by auto
qed

lemma learn_anchor_close:
  assumes "(if pred > j then pred - j else j - pred) \<le> tol"
  shows "not_stisla_learn_anchor ro (Ptr t) x j pred tol = Some (Ptr t)"
  using assms by (simp add: not_stisla_learn_anchor_def Let_def)


lemma search_window_counter:
  assumes "tsize t = 2"
  shows "search_window (t\<lparr>searches_performed := c\<rparr>) key tol = search_window t key tol"
proof -
  have r: "anchor_read (t\<lparr>searches_performed := c\<rparr>) k = anchor_read t k" for k
    by (simp add: anchor_read_def)
  have "not_stisla_anchor_lower (t\<lparr>searches_performed := c\<rparr>) key =
        not_stisla_anchor_lower t key"
    using assms by (simp add: anchor_lower_two r cong: Option.bind_cong if_cong)
  then show ?thesis by (simp add: search_window_def r)
qed


lemma init_endpoints_seeded_only:
  assumes "seeded_only (Ptr t)" "32 \<le> n" "n \<le> 2 ^ 63" "init_endpoints mo arr n t = Some s"
  obtains t1 where "s = Seeded t1" "seeded_only (Ptr t1)" "tsize t1 = 2"
    "searches_performed t1 = searches_performed t"
proof -
  from assms(1) have c: "capacity t = 8" "length (anchors t) = 8"
    "list_all (\<lambda>c. c = None) (drop 2 (anchors t))" "tsize t = 0 \<or> tsize t = 2"
    by (simp_all add: seeded_only_def)
  from assms(4) c(1) obtain t1 where s: "s = Seeded t1"
    by (cases s) (auto dest: init_endpoints_NoMemory)
  from init_endpoints_Seeded [OF assms(4) [unfolded s]]
  consider "tsize t \<noteq> 0" "t1 = t"
    | buf x0 xn where "tsize t = 0" "tsize t1 = 2"
        "buf = anchors t \<and> capacity t1 = capacity t \<or> buf = replicate 2 None \<and> capacity t = 0"
        "anchors t1 = buf[0 := Some \<lparr>anchor_v = x0, anchor_i = 0\<rparr>,
                          1 := Some \<lparr>anchor_v = xn, anchor_i = n - 1\<rparr>]"
        "searches_performed t1 = searches_performed t"
    by blast
  then show thesis
  proof cases
    case 1
    with c(4) assms(1) s show ?thesis by (intro that [of t1]) simp_all
  next
    case 2
    with c(1) have buf: "buf = anchors t" "capacity t1 = 8" by simp_all
    have n1: "n - 1 < 2 ^ 63" using assms(2,3) by simp
    have "drop 2 (anchors t1) = drop 2 (anchors t)" unfolding 2(4) buf by simp
    moreover have "anchors t1 ! 0 = Some \<lparr>anchor_v = x0, anchor_i = 0\<rparr>"
      "anchors t1 ! 1 = Some \<lparr>anchor_v = xn, anchor_i = n - 1\<rparr>"
      unfolding 2(4) buf using c(2) by simp_all
    moreover have "length (anchors t1) = 8" unfolding 2(4) buf using c(2) by simp
    ultimately have "seeded_only (Ptr t1)"
      using c(3) buf(2) 2(2) n1 by (simp add: seeded_only_def)
    with s 2(2,5) show ?thesis by (intro that [of t1]) simp_all
  qed
qed

lemma search_seeded_only:
  assumes "seeded_only (Ptr t)" "32 \<le> n" "n \<le> 2 ^ 63"
    and "not_stisla_search mo ro (Ptr arr) n key (Ptr t) tol = Some (j, table')"
  obtains t1 pred lo hi where
    "seeded_only (Ptr t1)" "tsize t1 = 2"
    "search_window t1 key tol = Some (pred, lo, hi)"
    "not_stisla_local_search arr lo hi key = Some j"
    "j \<noteq> NOT_STISLA_NOT_FOUND \<longrightarrow> (if pred > j then pred - j else j - pred) \<le> tol"
    "table' = Ptr (if j \<noteq> NOT_STISLA_NOT_FOUND
                   then t1\<lparr>searches_performed := size_add (searches_performed t1) 1\<rparr> else t1)"
proof -
  have close: "(if pred > j then pred - j else j - pred) \<le> tol"
    if "seeded_only (Ptr t1)" "tsize t1 = 2" "search_window t1 key tol = Some (pred, lo, hi)"
      "not_stisla_local_search arr lo hi key = Some j" "j \<noteq> NOT_STISLA_NOT_FOUND"
    for t1 pred lo hi
  proof -
    from that(1,2,3) obtain r_i where r: "r_i < 2 ^ 63" "pred \<le> r_i"
      "(lo, hi) = search_bounds pred tol 0 r_i" by (rule search_window_two)
    from local_search_sound [OF that(4,5)] have "lo \<le> j" "j \<le> hi" by simp_all
    from search_bounds_within_tolerance [OF r(3) r(2) r(1) this] show ?thesis .
  qed
  from assms(4,2) show thesis
  proof (cases rule: search_large)
    case (nomem t0)
    with init_endpoints_seeded_only [OF assms(1,2,3), of mo arr "NoMemory t0"]
    show ?thesis by simp
  next
    case (miss t1 pred lo hi)
    from miss(1) have i: "init_endpoints mo arr n t = Some (Seeded t1)" by simp
    from init_endpoints_seeded_only [OF assms(1,2,3) i]
    have s: "seeded_only (Ptr t1)" "tsize t1 = 2" by auto
    from miss(4) have nf: "j = NOT_STISLA_NOT_FOUND" by simp
    with miss(5) have "table' = Ptr (if j \<noteq> NOT_STISLA_NOT_FOUND
                   then t1\<lparr>searches_performed := size_add (searches_performed t1) 1\<rparr> else t1)"
      by simp
    with s miss(2,3) nf show ?thesis by (intro that [of t1 pred lo hi]) simp_all
  next
    case (hit t1 pred lo hi t2)
    from hit(1) have i: "init_endpoints mo arr n t = Some (Seeded t1)" by simp
    from init_endpoints_seeded_only [OF assms(1,2,3) i]
    have s: "seeded_only (Ptr t1)" "tsize t1 = 2" by auto
    from close [OF s hit(2,3,4)]
    have c: "(if pred > j then pred - j else j - pred) \<le> tol" .
    from learn_anchor_close [OF c, of ro t1 "arr ! j"] hit(7) have "t2 = Ptr t1" by simp
    with hit(8,4) have "table' = Ptr (if j \<noteq> NOT_STISLA_NOT_FOUND
                   then t1\<lparr>searches_performed := size_add (searches_performed t1) 1\<rparr> else t1)"
      by simp
    with s hit(2,3) c show ?thesis by (intro that [of t1 pred lo hi]) simp_all
  qed
qed

lemma search_hit_intro:
  assumes "32 \<le> n" "init_endpoints mo arr n t = Some (Seeded t1)"
    "search_window t1 key tol = Some (pred, lo, hi)"
    "not_stisla_local_search arr lo hi key = Some j" "j \<noteq> NOT_STISLA_NOT_FOUND"
    "j < length arr" "not_stisla_learn_anchor ro (Ptr t1) (arr ! j) j pred tol = Some (Ptr t2)"
  shows "not_stisla_search mo ro (Ptr arr) n key (Ptr t) tol =
           Some (j, Ptr (t2\<lparr>searches_performed := size_add (searches_performed t2) 1\<rparr>))"
  using assms by (simp add: not_stisla_search_def arr_read_def)








lemma search_repeat_seeded_only:
  assumes "seeded_only (Ptr t)" "n \<le> 2 ^ 63"
    and "not_stisla_search mo ro (Ptr arr) n key (Ptr t) tol = Some (j, table')"
    and "j \<noteq> NOT_STISLA_NOT_FOUND"
  shows "\<exists>t' t''. table' = Ptr t' \<and>
           not_stisla_search mo' ro' (Ptr arr) n key (Ptr t') tol = Some (j, Ptr t'')"
proof (cases "32 \<le> n")
  case False
  with assms(3,4) have n: "n < 32" "n \<noteq> 0"
    by (auto simp: not_stisla_search_def split: if_splits)
  from assms(3) have "table' = Ptr t" "not_stisla_chunked_search arr n key = Some j"
    unfolding search_small [OF n] by auto
  then show ?thesis unfolding search_small [OF n] by simp
next
  case True
  from assms(1) True assms(2,3) obtain t1 pred lo hi where
    s: "seeded_only (Ptr t1)" "tsize t1 = 2"
    and w: "search_window t1 key tol = Some (pred, lo, hi)"
    and l: "not_stisla_local_search arr lo hi key = Some j"
    and c: "j \<noteq> NOT_STISLA_NOT_FOUND \<longrightarrow> (if pred > j then pred - j else j - pred) \<le> tol"
    and t: "table' = Ptr (if j \<noteq> NOT_STISLA_NOT_FOUND
                   then t1\<lparr>searches_performed := size_add (searches_performed t1) 1\<rparr> else t1)"
    by (rule search_seeded_only)
  define t' where "t' = t1\<lparr>searches_performed := size_add (searches_performed t1) 1\<rparr>"
  from t assms(4) have tp: "table' = Ptr t'" by (simp add: t'_def)
  have ts: "tsize t' = 2" using s(2) by (simp add: t'_def)
  then have i: "init_endpoints mo' arr n t' = Some (Seeded t')" by (simp add: init_endpoints_def)
  have w': "search_window t' key tol = Some (pred, lo, hi)"
    unfolding t'_def search_window_counter [OF s(2)] by (rule w)
  from local_search_sound [OF l assms(4)] have jl: "j < length arr" by simp
  from c assms(4) have "(if pred > j then pred - j else j - pred) \<le> tol" by simp
  then have le: "not_stisla_learn_anchor ro' (Ptr t') (arr ! j) j pred tol = Some (Ptr t')"
    by (rule learn_anchor_close)
  from search_hit_intro [OF True i w' l assms(4) jl le] tp show ?thesis by blast
qed











end
